theory Spec2Isabelle
  imports Complex_Main
begin

section \<open>Python errors and slices\<close>

text \<open>
  The exceptions the modelled functions can raise. A function that can raise returns
  \<open>error + 'a\<close>, with \<open>Inl\<close> for the exception.
\<close>

datatype error =
  ValueError | IndexError | AssertionError | ZeroDivisionError | OverflowError | TypeError

text \<open>
  \<open>xs[a:b]\<close> on a sequence of length \<open>n\<close>: a negative bound counts from the end,
  and both bounds are clamped to \<open>[0, n]\<close>.
\<close>

definition py_index :: "nat \<Rightarrow> int \<Rightarrow> nat" where
  "py_index n a = (if a < 0 then nat (max 0 (a + int n)) else min (nat a) n)"

definition py_slice :: "'a list \<Rightarrow> int \<Rightarrow> int \<Rightarrow> 'a list" where
  "py_slice xs a b =
     (let lo = py_index (length xs) a; hi = py_index (length xs) b
      in take (hi - lo) (drop lo xs))"

text \<open>
  \<open>xs[a:b:-1]\<close>: the elements at \<open>a, a-1, ..., b+1\<close>. A negative bound counts
  from the end, and both bounds are clamped to \<open>[-1, n-1]\<close>.
\<close>

definition py_index_rev :: "nat \<Rightarrow> int \<Rightarrow> int" where
  "py_index_rev n a = (if a < 0 then max (- 1) (a + int n) else min a (int n - 1))"

definition py_slice_rev :: "'a list \<Rightarrow> int \<Rightarrow> int \<Rightarrow> 'a list" where
  "py_slice_rev xs a b =
     (let start = py_index_rev (length xs) a; stop = py_index_rev (length xs) b
      in map (\<lambda>k. xs ! nat (start - int k)) [0..<nat (start - stop)])"

section \<open>Lazy Toeplitz matrix\<close>

text \<open>
  \<open>scipy.linalg.toeplitz(c, r)\<close>: the \<open>len(c)\<close> by \<open>len(r)\<close> matrix with first
  column \<open>c\<close> and first row \<open>r\<close>; \<open>r[0]\<close> is ignored. A dense matrix is the list
  of its rows.
\<close>

definition toeplitz :: "'a list \<Rightarrow> 'a list \<Rightarrow> 'a list list" where
  "toeplitz c r =
     map (\<lambda>a. map (\<lambda>b. if b \<le> a then c ! (a - b) else r ! (b - a)) [0..<length r])
       [0..<length c]"

record 'a LazyToeplitz =
  lt_c :: "'a list"
  lt_r :: "'a list"

text \<open>
  \<open>LazyToeplitz.__init__(c, r=None)\<close>. Reading \<open>c[0]\<close> or \<open>r[0]\<close> of an empty
  sequence raises IndexError.
\<close>

definition LazyToeplitz_init :: "'a list \<Rightarrow> 'a list option \<Rightarrow> error + 'a LazyToeplitz" where
  "LazyToeplitz_init c ropt =
     (case ropt of
        None \<Rightarrow> Inr \<lparr>lt_c = c, lt_r = c\<rparr>
      | Some r \<Rightarrow>
          if c = [] \<or> r = [] then Inl IndexError
          else if c ! 0 \<noteq> r ! 0 then Inl ValueError
          else Inr \<lparr>lt_c = c, lt_r = r\<rparr>)"


text \<open>
  \<open>LazyToeplitz.__getitem__\<close> after the two slices of the key have been resolved to
  \<open>(i0, i1)\<close> and \<open>(j0, j1)\<close> (the resolution is the indexing mixin of the cooler
  library, which this repository imports).
\<close>

definition getitem :: "'a LazyToeplitz \<Rightarrow> int \<Rightarrow> int \<Rightarrow> int \<Rightarrow> int \<Rightarrow> 'a list list" where
  "getitem t i0 i1 j0 j1 =
     (let C = lt_c t; R = lt_r t in
      if i0 = j0 \<and> i1 = j1 then
        toeplitz (py_slice C 0 (i1 - i0)) (py_slice R 0 (j1 - j0))
      else
        let transpose = (j0 < i0 \<or> (i0 = j0 \<and> i1 < j1));
            (i0, i1, j0, j1) = (if transpose then (j0, j1, i0, i1) else (i0, i1, j0, j1));
            (C, R) = (if transpose then (R, C) else (C, R));
            c = py_slice_rev R (j0 - i0) (max 0 (j0 - i1)) @ py_slice C 0 (max 0 (i1 - j0));
            r = py_slice R (j0 - i0) (j1 - i0);
            (c, r) = (if transpose then (r, c) else (c, r))
        in toeplitz c r)"

text \<open>
  The dense matrix the pair \<open>(C, R)\<close> stands for, in the words of the specification:
  \<open>full_matrix[i,j] = C[i-j] if i \<ge> j else R[j-i]\<close>, and its block
  \<open>full_matrix[i0:i1, j0:j1]\<close>.
\<close>

definition full_matrix :: "'a list \<Rightarrow> 'a list \<Rightarrow> nat \<Rightarrow> nat \<Rightarrow> 'a" where
  "full_matrix C R i j = (if j \<le> i then C ! (i - j) else R ! (j - i))"

definition full_block :: "'a list \<Rightarrow> 'a list \<Rightarrow> nat \<Rightarrow> nat \<Rightarrow> nat \<Rightarrow> nat \<Rightarrow> 'a list list" where
  "full_block C R i0 i1 j0 j1 = map (\<lambda>i. map (\<lambda>j. full_matrix C R i j) [j0..<j1]) [i0..<i1]"

section \<open>Double-precision values\<close>

text \<open>
  The arrays hold \<open>np.double\<close> values. The model keeps the special values of the
  format (the two infinities and NaN) and takes the finite values as real numbers:
  rounding, overflow of a finite result and the sign of zero are left out, so a zero
  divisor counts as \<open>+0\<close>. Every operation is total, as it is on floats: where numpy
  warns (a division by zero, the mean of an empty selection) the result is an infinity
  or NaN, and nothing is raised.
\<close>

datatype double = Fin real | PInf | NInf | NaN

fun dneg :: "double \<Rightarrow> double" where
  "dneg (Fin a) = Fin (- a)"
| "dneg PInf = NInf"
| "dneg NInf = PInf"
| "dneg NaN = NaN"

fun dadd :: "double \<Rightarrow> double \<Rightarrow> double" where
  "dadd (Fin a) (Fin b) = Fin (a + b)"
| "dadd (Fin a) PInf = PInf"
| "dadd (Fin a) NInf = NInf"
| "dadd PInf (Fin b) = PInf"
| "dadd NInf (Fin b) = NInf"
| "dadd PInf PInf = PInf"
| "dadd NInf NInf = NInf"
| "dadd PInf NInf = NaN"
| "dadd NInf PInf = NaN"
| "dadd NaN b = NaN"
| "dadd a NaN = NaN"

definition dsub :: "double \<Rightarrow> double \<Rightarrow> double" where
  "dsub a b = dadd a (dneg b)"

text \<open>An infinity of the sign of \<open>a\<close> times the sign of the infinity; NaN when \<open>a = 0\<close>.\<close>

definition signed_inf :: "real \<Rightarrow> bool \<Rightarrow> double" where
  "signed_inf a pos = (if a = 0 then NaN else if (0 < a) = pos then PInf else NInf)"

fun dmul :: "double \<Rightarrow> double \<Rightarrow> double" where
  "dmul (Fin a) (Fin b) = Fin (a * b)"
| "dmul (Fin a) PInf = signed_inf a True"
| "dmul (Fin a) NInf = signed_inf a False"
| "dmul PInf (Fin b) = signed_inf b True"
| "dmul NInf (Fin b) = signed_inf b False"
| "dmul PInf PInf = PInf"
| "dmul NInf NInf = PInf"
| "dmul PInf NInf = NInf"
| "dmul NInf PInf = NInf"
| "dmul NaN b = NaN"
| "dmul a NaN = NaN"

fun ddiv :: "double \<Rightarrow> double \<Rightarrow> double" where
  "ddiv (Fin a) (Fin b) = (if b = 0 then signed_inf a True else Fin (a / b))"
| "ddiv (Fin a) PInf = Fin 0"
| "ddiv (Fin a) NInf = Fin 0"
| "ddiv PInf (Fin b) = (if 0 \<le> b then PInf else NInf)"
| "ddiv NInf (Fin b) = (if 0 \<le> b then NInf else PInf)"
| "ddiv PInf PInf = NaN"
| "ddiv NInf NInf = NaN"
| "ddiv PInf NInf = NaN"
| "ddiv NInf PInf = NaN"
| "ddiv NaN b = NaN"
| "ddiv a NaN = NaN"

text \<open>\<open>a < b\<close> on doubles: false whenever an operand is NaN.\<close>

fun dless :: "double \<Rightarrow> double \<Rightarrow> bool" where
  "dless (Fin a) (Fin b) = (a < b)"
| "dless (Fin a) PInf = True"
| "dless NInf (Fin b) = True"
| "dless NInf PInf = True"
| "dless a b = False"

text \<open>\<open>np.isnan\<close>, \<open>np.isposinf\<close>, \<open>np.isneginf\<close> and \<open>np.isfinite\<close>.\<close>

definition isnan :: "double \<Rightarrow> bool" where
  "isnan a = (a = NaN)"

definition isposinf :: "double \<Rightarrow> bool" where
  "isposinf a = (a = PInf)"

definition isneginf :: "double \<Rightarrow> bool" where
  "isneginf a = (a = NInf)"

definition isfinite :: "double \<Rightarrow> bool" where
  "isfinite a = (case a of Fin r \<Rightarrow> True | _ \<Rightarrow> False)"

text \<open>
  The element type of an array, and the value that an assignment \<open>a[i, j] = v\<close> of a
  double \<open>v\<close> stores into an array of that type: \<open>v\<close> itself in a \<open>float64\<close>
  array, \<open>v\<close> truncated towards zero in an \<open>int64\<close> array. The values of an
  \<open>int64\<close> array are read as the doubles of the same value. The conversion of NaN
  and of an infinity gives \<open>-2^63\<close>, as on x86-64.
\<close>

datatype dtype = Int64 | Float64

definition trunc :: "real \<Rightarrow> int" where
  "trunc r = (if 0 \<le> r then \<lfloor>r\<rfloor> else \<lceil>r\<rceil>)"

definition astype :: "dtype \<Rightarrow> double \<Rightarrow> double" where
  "astype dt v =
     (case dt of
        Float64 \<Rightarrow> v
      | Int64 \<Rightarrow> (case v of Fin r \<Rightarrow> Fin (of_int (trunc r)) | _ \<Rightarrow> Fin (- (2 ^ 63))))"

section \<open>Arrays\<close>

text \<open>
  A 1-D array is a list; a 2-D array is the list of its rows. \<open>mat_get\<close> reads
  \<open>m[i, j]\<close> and \<open>mat_set\<close> is the assignment \<open>m[i, j] = v\<close>. The loops of the
  modelled functions stay inside a square array, where both are in range (on an array
  with too few columns Python raises IndexError at the first access out of range).
\<close>

type_synonym vector = "double list"
type_synonym matrix = "double list list"

definition mat_get :: "'a list list \<Rightarrow> nat \<Rightarrow> nat \<Rightarrow> 'a" where
  "mat_get m i j = m ! i ! j"

definition mat_set :: "'a list list \<Rightarrow> nat \<Rightarrow> nat \<Rightarrow> 'a \<Rightarrow> 'a list list" where
  "mat_set m i j v = m[i := (m ! i)[j := v]]"

definition square :: "nat \<Rightarrow> 'a list list \<Rightarrow> bool" where
  "square N m = (length m = N \<and> list_all (\<lambda>row. length row = N) m)"

text \<open>
  An in-place loop over cells: for each \<open>(i, j)\<close> of the list in turn,
  \<open>m[i, j] = f(i, j, m[i, j])\<close>.
\<close>

definition cell_loop ::
    "(nat \<Rightarrow> nat \<Rightarrow> 'a \<Rightarrow> 'a) \<Rightarrow> (nat \<times> nat) list \<Rightarrow> 'a list list \<Rightarrow> 'a list list" where
  "cell_loop f ps m = fold (\<lambda>(i, j) m. mat_set m i j (f i j (mat_get m i j))) ps m"

text \<open>\<open>np.sum\<close> of a 1-D array, and \<open>np.sum(m, axis=1)\<close>: the sums of the rows.\<close>

definition dsum :: "vector \<Rightarrow> double" where
  "dsum xs = foldl dadd (Fin 0) xs"

definition row_sums :: "matrix \<Rightarrow> vector" where
  "row_sums m = map dsum m"

text \<open>
  \<open>np.mean\<close> and \<open>np.var\<close> of a 1-D array. The mean of an empty array is
  \<open>0 / 0 = NaN\<close> (numpy warns and returns nan).
\<close>

definition np_mean :: "vector \<Rightarrow> double" where
  "np_mean xs = ddiv (dsum xs) (Fin (real (length xs)))"

definition np_var :: "vector \<Rightarrow> double" where
  "np_var xs = (let m = np_mean xs in np_mean (map (\<lambda>v. dmul (dsub v m) (dsub v m)) xs))"

text \<open>Boolean-mask indexing \<open>xs[mask]\<close>: the entries whose mask bit is set.\<close>

definition select :: "'a list \<Rightarrow> bool list \<Rightarrow> 'a list" where
  "select xs msk = map fst (filter snd (zip xs msk))"

section \<open>Matrix balancer: \<open>iterative_correction_symmetric\<close>\<close>

text \<open>
  The function works on \<open>_x = x.copy()\<close>, so the model is a function of the value of
  \<open>x\<close> and of its element type: the copy has the element type of \<open>x\<close>. \<open>max_iter\<close> and \<open>ignore_diags\<close> are natural numbers (a negative value
  gives the empty \<open>range\<close>, as 0 does).

  Lines 524-529: the entries \<open>_x[j, j+d]\<close> and \<open>_x[j+d, j]\<close> of the first
  \<open>ignore_diags\<close> diagonals are set to zero.
\<close>

definition zero_diags :: "nat \<Rightarrow> matrix \<Rightarrow> matrix" where
  "zero_diags ignore_diags x =
     (let N = length x in
      cell_loop (\<lambda>i j v. Fin 0)
        (concat (map (\<lambda>d. concat (map (\<lambda>j. [(j, j + d), (j + d, j)]) [0..<N - d]))
           [0..<ignore_diags])) x)"

text \<open>
  Lines 537-553, the body of the iteration up to the in-place division of \<open>_x\<close>. It
  returns the new \<open>_x\<close>, the new \<open>totalBias\<close>, the mask and the damped \<open>s\<close>.
  The constant \<open>0.8\<close> is the real number \<open>4/5\<close>. \<open>_x[i,j] /= s[i] * s[j]\<close>
  stores the quotient, a double, into \<open>_x\<close>, an array of the element type \<open>dt\<close>.
\<close>

definition ic_iteration ::
    "dtype \<Rightarrow> matrix \<Rightarrow> vector \<Rightarrow> matrix \<times> vector \<times> bool list \<times> vector" where
  "ic_iteration dt x totalBias =
     (let N = length x;
          s = row_sums x;
          msk = map (\<lambda>v. v = Fin 0) s;
          mean = np_mean (select s (map Not msk));
          s = map (\<lambda>v. ddiv v mean) s;
          s = map (\<lambda>(v, excluded). if excluded then Fin 1 else v) (zip s msk);
          s = map (\<lambda>v. dsub v (Fin 1)) s;
          s = map (\<lambda>v. dmul v (Fin 0.8)) s;
          s = map (\<lambda>v. dadd v (Fin 1)) s;
          totalBias = map (\<lambda>(b, v). dmul b v) (zip totalBias s);
          x = cell_loop (\<lambda>i j v. astype dt (ddiv v (dmul (s ! i) (s ! j))))
                (concat (map (\<lambda>i. map (\<lambda>j. (i, j)) [0..<N]) [0..<N])) x
      in (x, totalBias, msk, s))"

record ic_state =
  st_x :: matrix
  st_totalBias :: vector
  st_mask :: "bool list"
  st_converged :: bool
  st_iternum :: nat

text \<open>
  The loop \<open>for iternum in range(max_iter)\<close>: the first argument counts the rounds
  that remain, \<open>iternum\<close> is the index of the round about to run. The loop leaves by
  \<open>break\<close> when \<open>tol > 0\<close> and the variance of \<open>s\<close> is below \<open>tol\<close>.
\<close>

fun ic_loop :: "dtype \<Rightarrow> nat \<Rightarrow> double \<Rightarrow> nat \<Rightarrow> ic_state \<Rightarrow> ic_state" where
  "ic_loop dt 0 tol iternum st = st"
| "ic_loop dt (Suc n) tol iternum st =
     (let (x, totalBias, msk, s) = ic_iteration dt (st_x st) (st_totalBias st);
          crit = np_var s;
          st = st\<lparr>st_x := x, st_totalBias := totalBias, st_mask := msk, st_iternum := iternum\<rparr>
      in if dless (Fin 0) tol \<and> dless crit tol then st\<lparr>st_converged := True\<rparr>
         else ic_loop dt n tol (Suc iternum) st)"

record report =
  converged :: bool
  iternum :: nat

definition iterative_correction_symmetric ::
    "dtype \<Rightarrow> matrix \<Rightarrow> nat \<Rightarrow> nat \<Rightarrow> double \<Rightarrow> matrix \<times> vector \<times> report" where
  "iterative_correction_symmetric dt x max_iter ignore_diags tol =
     (let N = length x;
          x = (if 0 < ignore_diags then zero_diags ignore_diags x else x);
          st = \<lparr>st_x = x, st_totalBias = replicate N (Fin 1),
                st_mask = map (\<lambda>v. v = Fin 0) (row_sums x),
                st_converged = False, st_iternum = 0\<rparr>;
          st = ic_loop dt max_iter tol 0 st;
          corr = np_mean (select (st_totalBias st) (map Not (st_mask st)));
          x = map (map (\<lambda>v. dmul (dmul v corr) corr)) (st_x st);
          totalBias = map (\<lambda>b. ddiv b corr) (st_totalBias st)
      in (x, totalBias, \<lparr>converged = st_converged st, iternum = st_iternum st\<rparr>))"

text \<open>
  One round of the balancer in the words of the specification, for an \<open>N\<close> by \<open>N\<close>
  matrix \<open>M\<close>: the row sums \<open>s\<close> of the current matrix; the excluded rows, those
  with \<open>s = 0\<close>; \<open>s\<close> divided by its mean over the rows that are not excluded, and
  set to 1 on the excluded rows; the damping \<open>s' = 1 + 0.8 * (s - 1)\<close>; the total
  bias multiplied by \<open>s'\<close>; every entry \<open>M[i,j]\<close> divided by \<open>s'[i] * s'[j]\<close>.
  The result has the components of \<open>ic_iteration\<close>.
\<close>

definition balancer_round :: "nat \<Rightarrow> matrix \<Rightarrow> vector \<Rightarrow> matrix \<times> vector \<times> bool list \<times> vector" where
  "balancer_round N M bias =
     (let s = (\<lambda>i. dsum (M ! i));
          excluded = (\<lambda>i. s i = Fin 0);
          mean = np_mean (map s (filter (\<lambda>i. \<not> excluded i) [0..<N]));
          normalized = (\<lambda>i. if excluded i then Fin 1 else ddiv (s i) mean);
          s' = (\<lambda>i. dadd (Fin 1) (dmul (Fin 0.8) (dsub (normalized i) (Fin 1))))
      in (map (\<lambda>i. map (\<lambda>j. ddiv (M ! i ! j) (dmul (s' i) (s' j))) [0..<N]) [0..<N],
          map (\<lambda>i. dmul (bias ! i) (s' i)) [0..<N],
          map excluded [0..<N],
          map s' [0..<N]))"

text \<open>A symmetric \<open>N\<close> by \<open>N\<close> matrix: \<open>M[i,j] = M[j,i]\<close> for all \<open>i, j < N\<close>.\<close>

definition symmetric :: "nat \<Rightarrow> 'a list list \<Rightarrow> bool" where
  "symmetric N m =
     list_all (\<lambda>i. list_all (\<lambda>j. mat_get m i j = mat_get m j i) [0..<N]) [0..<N]"


section \<open>Insulation boundaries: the bad-bin counts of \<open>find_insulating_boundaries\<close>\<close>

text \<open>
  In-place addition on a slice, \<open>xs[a:b] += ys\<close> and \<open>xs[a:b] += c\<close>. A slice
  without a start is \<open>xs[0:b]\<close>, one without a stop is \<open>xs[a:len(xs)]\<close>. In the
  loop below the two sides of \<open>+=\<close> always have the same length.
\<close>

definition slice_iadd :: "int list \<Rightarrow> int \<Rightarrow> int \<Rightarrow> int list \<Rightarrow> int list" where
  "slice_iadd xs a b ys =
     (let lo = py_index (length xs) a; hi = py_index (length xs) b
      in take lo xs @ map (\<lambda>(x, y). x + y) (zip (py_slice xs a b) ys) @ drop (max lo hi) xs)"

definition slice_iadd_scalar :: "int list \<Rightarrow> int \<Rightarrow> int \<Rightarrow> int \<Rightarrow> int list" where
  "slice_iadd_scalar xs a b c =
     (let lo = py_index (length xs) a; hi = py_index (length xs) b
      in take lo xs @ map (\<lambda>x. x + c) (py_slice xs a b) @ drop (max lo hi) xs)"

text \<open>\<open>astype(np.int)\<close> of a boolean array.\<close>

definition astype_int :: "bool list \<Rightarrow> int list" where
  "astype_int bs = map (\<lambda>b. if b then 1 else 0) bs"

text \<open>
  Lines 87-94: the counts \<open>bad_bins_u\<close> and \<open>bad_bins_d\<close>, from the flags
  \<open>is_bad_bin\<close>. One round of the loop, for the shift \<open>i\<close>, and the loop over
  \<open>range(1, window_bins)\<close>.
\<close>

definition bad_bins_round :: "bool list \<Rightarrow> nat \<Rightarrow> int list \<times> int list \<Rightarrow> int list \<times> int list" where
  "bad_bins_round is_bad_bin i ud =
     (let n = int (length is_bad_bin);
          (bad_bins_u, bad_bins_d) = ud;
          bad_bins_u = slice_iadd bad_bins_u (int i) n (astype_int (py_slice is_bad_bin 0 (- int i)));
          bad_bins_u = slice_iadd_scalar bad_bins_u 0 (int i) 1;
          bad_bins_d = slice_iadd bad_bins_d 0 (- int i) (astype_int (py_slice is_bad_bin (int i) n));
          bad_bins_u = slice_iadd_scalar bad_bins_u (- int i) n 1
      in (bad_bins_u, bad_bins_d))"

definition bad_bin_counts :: "bool list \<Rightarrow> nat \<Rightarrow> int list \<times> int list" where
  "bad_bin_counts is_bad_bin window_bins =
     fold (bad_bins_round is_bad_bin) [1..<window_bins]
       (astype_int is_bad_bin, astype_int is_bad_bin)"

text \<open>Assignment under a boolean mask, \<open>xs[mask] = v\<close>.\<close>

definition masked_assign :: "'a list \<Rightarrow> bool list \<Rightarrow> 'a \<Rightarrow> 'a list" where
  "masked_assign xs msk v = map (\<lambda>(x, b). if b then v else x) (zip xs msk)"

text \<open>
  Lines 86-109 for one chromosome: the flags from the weights of the bins, the counts,
  and the three assignments that mark values of the track as missing. The track before
  the marking, \<open>np.log2(insul_diamond(...))\<close>, is an argument.
\<close>

definition mark_bad_bins :: "vector \<Rightarrow> nat \<Rightarrow> int \<Rightarrow> vector \<Rightarrow> vector" where
  "mark_bad_bins weight window_bins max_bad_bins ins_track =
     (let is_bad_bin = map isnan weight;
          (bad_bins_u, bad_bins_d) = bad_bin_counts is_bad_bin window_bins;
          ins_track = masked_assign ins_track is_bad_bin NaN;
          ins_track = masked_assign ins_track (map (\<lambda>c. max_bad_bins < c) bad_bins_u) NaN;
          ins_track = masked_assign ins_track (map (\<lambda>c. max_bad_bins < c) bad_bins_d) NaN
      in ins_track)"

text \<open>
  The counts in the words of the specification: the number of bad bins in the window of
  \<open>window_bins\<close> positions that ends at bin \<open>k\<close> (upstream) or starts at bin \<open>k\<close>
  (downstream), a position outside the chromosome counting as bad; and the bins that
  are to be marked missing.
\<close>

definition upstream_bad :: "bool list \<Rightarrow> nat \<Rightarrow> nat \<Rightarrow> int" where
  "upstream_bad is_bad_bin window_bins k =
     int (length (filter (\<lambda>i. k < i \<or> is_bad_bin ! (k - i)) [0..<window_bins]))"

definition downstream_bad :: "bool list \<Rightarrow> nat \<Rightarrow> nat \<Rightarrow> int" where
  "downstream_bad is_bad_bin window_bins k =
     int (length (filter (\<lambda>i. length is_bad_bin \<le> k + i \<or> is_bad_bin ! (k + i)) [0..<window_bins]))"

definition missing_by_spec :: "bool list \<Rightarrow> nat \<Rightarrow> int \<Rightarrow> nat \<Rightarrow> bool" where
  "missing_by_spec is_bad_bin window_bins max_bad_bins k =
     (is_bad_bin ! k \<or> max_bad_bins < upstream_bad is_bad_bin window_bins k
        \<or> max_bad_bins < downstream_bad is_bad_bin window_bins k)"

section \<open>Log-spaced bin edges: \<open>logbins\<close>\<close>

text \<open>
  The functions of numpy that \<open>logbins\<close> calls on floating-point numbers are
  arguments of the model: \<open>np.log\<close>, \<open>np.log10\<close>,
  \<open>np.logspace(start, stop, num)\<close>, which returns an array or raises, and the value
  that the conversion to \<open>dtype=int\<close> gives for an entry that is not finite. What
  is proved of \<open>logbins\<close> and of its callers holds for every choice of these
  functions.
\<close>

record numpy =
  np_log :: "double \<Rightarrow> double"
  np_log10 :: "double \<Rightarrow> double"
  np_logspace :: "double \<Rightarrow> double \<Rightarrow> double \<Rightarrow> error + vector"
  np_int_of_nonfinite :: "double \<Rightarrow> int"

text \<open>
  \<open>np.rint\<close> of a finite number, the nearest integer with ties to the even one, and
  \<open>np.array(np.rint(x), dtype=int)\<close> entry by entry.
\<close>

definition rint :: "real \<Rightarrow> int" where
  "rint r =
     (let f = \<lfloor>r\<rfloor>; d = r - of_int f
      in if d < 1 / 2 then f else if 1 / 2 < d then f + 1 else if even f then f else f + 1)"

definition rint_int :: "numpy \<Rightarrow> double \<Rightarrow> int" where
  "rint_int np x = (case x of Fin r \<Rightarrow> rint r | _ \<Rightarrow> np_int_of_nonfinite np x)"

text \<open>
  \<open>logbins(lo, hi, ratio=0, N=0, prepend_zero=False)\<close>, lines 381-411, for integers
  \<open>lo\<close> and \<open>hi\<close>. \<open>hi / lo\<close> is the true division of Python 3, which raises
  ZeroDivisionError for \<open>lo = 0\<close>. \<open>np.unique\<close> and \<open>np.sort\<close> leave the distinct
  entries in increasing order; \<open>data10[0]\<close> of an empty array raises IndexError, and
  the two \<open>assert\<close> raise AssertionError.
\<close>

definition logbins :: "numpy \<Rightarrow> int \<Rightarrow> int \<Rightarrow> double \<Rightarrow> double \<Rightarrow> bool \<Rightarrow> error + int list" where
  "logbins np lo hi ratio N prepend_zero =
     (if ratio \<noteq> Fin 0 \<and> N \<noteq> Fin 0 then Inl ValueError
      else if ratio = Fin 0 \<and> N = Fin 0 then Inl ValueError
      else if ratio \<noteq> Fin 0 \<and> lo = 0 then Inl ZeroDivisionError
      else
        let N = (if ratio \<noteq> Fin 0
                 then ddiv (np_log np (Fin (real_of_int hi / real_of_int lo))) (np_log np ratio)
                 else N)
        in case np_logspace np (np_log10 np (Fin (real_of_int lo)))
                  (np_log10 np (Fin (real_of_int hi))) N of
             Inl e \<Rightarrow> Inl e
           | Inr data10 \<Rightarrow>
               let data10 = map (rint_int np) data10;
                   data10 = sort (remdups data10)
               in if data10 = [] then Inl IndexError
                  else if hd data10 \<noteq> lo then Inl AssertionError
                  else if last data10 \<noteq> hi then Inl AssertionError
                  else Inr (if prepend_zero then 0 # data10 else data10))"

text \<open>
  The functions of numpy without rounding, for the concrete runs below: the logarithms
  and the powers are those of the real numbers, and \<open>np.logspace\<close> is
  \<open>10 ** linspace(start, stop, int(num))\<close>, with the last point set to \<open>stop\<close>;
  \<open>int(num)\<close> truncates, and raises for NaN and for an infinity. The concrete runs
  use them where the doubles give the same values: the logarithm of 1, a quotient that
  is an integer, and powers that are rounded to the nearest integer.
\<close>

definition real_log :: "real \<Rightarrow> double \<Rightarrow> double" where
  "real_log b x =
     (case x of
        Fin r \<Rightarrow> if 0 < r then Fin (ln r / ln b) else if r = 0 then NInf else NaN
      | PInf \<Rightarrow> PInf
      | _ \<Rightarrow> NaN)"

definition real_pow10 :: "double \<Rightarrow> double" where
  "real_pow10 x = (case x of Fin r \<Rightarrow> Fin (10 powr r) | PInf \<Rightarrow> PInf | NInf \<Rightarrow> Fin 0 | NaN \<Rightarrow> NaN)"

definition real_linspace :: "double \<Rightarrow> double \<Rightarrow> nat \<Rightarrow> vector" where
  "real_linspace start stop num =
     map (\<lambda>i. if 1 < num
               then if i = num - 1 then stop
                    else dadd (dmul (Fin (real i)) (ddiv (dsub stop start) (Fin (real (num - 1))))) start
               else dadd (dmul (Fin (real i)) (dsub stop start)) start)
       [0..<num]"

definition real_logspace :: "double \<Rightarrow> double \<Rightarrow> double \<Rightarrow> error + vector" where
  "real_logspace start stop num =
     (case num of
        Fin n \<Rightarrow> if trunc n < 0 then Inl ValueError
                 else Inr (map real_pow10 (real_linspace start stop (nat (trunc n))))
      | NaN \<Rightarrow> Inl ValueError
      | _ \<Rightarrow> Inl OverflowError)"

definition real_numpy :: numpy where
  "real_numpy =
     \<lparr>np_log = real_log (exp 1), np_log10 = real_log 10, np_logspace = real_logspace,
      np_int_of_nonfinite = (\<lambda>x. - (2 ^ 63))\<rparr>"

section \<open>Distance-decay normalizer: \<open>observed_over_expected\<close>\<close>

text \<open>
  The mask argument: a 1-D mask of good bins, a 2-D mask of good pixels, or an array of
  any other dimensionality. The default is the empty 1-D mask.
\<close>

datatype mask_arg = Mask1D "bool list" | Mask2D "bool list list" | MaskND

text \<open>
  Lines 453-460: \<open>mask2d\<close> is the outer product of a non-empty 1-D mask with itself,
  the 2-D mask as it is, and the empty 2-D array for the empty 1-D mask.
\<close>

definition expand_mask :: "mask_arg \<Rightarrow> error + bool list list" where
  "expand_mask m =
     (case m of
        Mask1D v \<Rightarrow> Inr (if 0 < length v then map (\<lambda>a. map (\<lambda>b. a \<and> b) v) v else [])
      | Mask2D m2 \<Rightarrow> Inr m2
      | MaskND \<Rightarrow> Inl ValueError)"

text \<open>\<open>mask2d.size > 0\<close>, and the test \<open>not has_mask or mask2d[i, j]\<close>.\<close>

definition has_mask :: "bool list list \<Rightarrow> bool" where
  "has_mask mask2d = (0 < length (concat mask2d))"

definition valid_pixel :: "bool list list \<Rightarrow> nat \<Rightarrow> nat \<Rightarrow> bool" where
  "valid_pixel mask2d i j = (\<not> has_mask mask2d \<or> mat_get mask2d i j)"

text \<open>
  The pairs \<open>(offset, j)\<close> that the two nested loops
  \<open>for offset in range(lo, hi): for j in range(0, N - offset)\<close> visit, in their order.
\<close>

definition band :: "nat \<Rightarrow> nat \<Rightarrow> nat \<Rightarrow> (nat \<times> nat) list" where
  "band N lo hi = concat (map (\<lambda>offset. map (\<lambda>j. (offset, j)) [0..<N - offset]) [lo..<hi])"

text \<open>Lines 474-480: the sum and the number of the valid pixels of a bin.\<close>

definition accumulate :: "matrix \<Rightarrow> bool list list \<Rightarrow> nat \<Rightarrow> nat \<Rightarrow> nat \<Rightarrow> double \<times> nat" where
  "accumulate data mask2d N lo hi =
     fold (\<lambda>(offset, j) (sum_pixels, n_pixels).
             if valid_pixel mask2d (offset + j) j
             then (dadd sum_pixels (mat_get data (offset + j) j), n_pixels + 1)
             else (sum_pixels, n_pixels))
       (band N lo hi) (Fin 0, 0)"

text \<open>
  Lines 491-497: the valid pixels of the bin are divided by the mean, in place. The
  cells written, in the order of the loops: \<open>data[offset + j, j]\<close>, and
  \<open>data[j, offset + j]\<close> when \<open>offset > 0\<close>, for each valid \<open>(offset, j)\<close>.
\<close>

definition bin_cells :: "bool list list \<Rightarrow> nat \<Rightarrow> nat \<Rightarrow> nat \<Rightarrow> (nat \<times> nat) list" where
  "bin_cells mask2d N lo hi =
     concat (map (\<lambda>(offset, j).
                  if valid_pixel mask2d (offset + j) j
                  then (offset + j, j) # (if 0 < offset then [(j, offset + j)] else [])
                  else [])
          (band N lo hi))"

definition divide_bin :: "matrix \<Rightarrow> bool list list \<Rightarrow> nat \<Rightarrow> nat \<Rightarrow> nat \<Rightarrow> double \<Rightarrow> matrix" where
  "divide_bin data mask2d N lo hi mean_pixel =
     cell_loop (\<lambda>i j v. ddiv v mean_pixel) (bin_cells mask2d N lo hi) data"

text \<open>
  Lines 471-497, the body of the loop over the bins: the state is \<open>data\<close>,
  \<open>n_pixels_arr\<close> and \<open>sum_pixels_arr\<close>. The two \<open>continue\<close> leave \<open>data\<close>
  as it is.
\<close>

definition oe_bin ::
    "bool list list \<Rightarrow> nat \<Rightarrow> nat \<times> nat \<times> nat \<Rightarrow> matrix \<times> nat list \<times> vector \<Rightarrow>
       matrix \<times> nat list \<times> vector" where
  "oe_bin mask2d N b st =
     (let (bin_idx, lo, hi) = b;
          (data, n_pixels_arr, sum_pixels_arr) = st;
          (sum_pixels, n_pixels) = accumulate data mask2d N lo hi;
          n_pixels_arr = n_pixels_arr[bin_idx := n_pixels];
          sum_pixels_arr = sum_pixels_arr[bin_idx := sum_pixels]
      in if n_pixels = 0 then (data, n_pixels_arr, sum_pixels_arr)
         else let mean_pixel = ddiv sum_pixels (Fin (real n_pixels))
              in if mean_pixel = Fin 0 then (data, n_pixels_arr, sum_pixels_arr)
                 else (divide_bin data mask2d N lo hi mean_pixel, n_pixels_arr, sum_pixels_arr))"

text \<open>
  \<open>zip(range(len(dist_bins)-1), dist_bins[:-1], dist_bins[1:])\<close>: the bins
  \<open>(bin_idx, lo, hi)\<close> of the loop.
\<close>

definition bins_of :: "nat list \<Rightarrow> (nat \<times> nat \<times> nat) list" where
  "bins_of dist_bins = zip [0..<length dist_bins - 1] (zip (butlast dist_bins) (tl dist_bins))"

text \<open>
  Lines 462-499 for the edges \<open>logbins_1_N\<close> that \<open>logbins(1, N, dist_bin_edge_ratio)\<close>
  has returned. The function works on \<open>data\<close>, a copy of \<open>matrix\<close> in doubles, so
  the model is a function of the value of \<open>matrix\<close>. The result is \<open>data\<close>,
  \<open>dist_bins\<close>, \<open>sum_pixels_arr\<close> and \<open>n_pixels_arr\<close>.
\<close>

definition oe_with_edges ::
    "matrix \<Rightarrow> mask_arg \<Rightarrow> nat list \<Rightarrow> error + (matrix \<times> nat list \<times> vector \<times> nat list)" where
  "oe_with_edges matrix m logbins_1_N =
     (let N = length matrix in
      case expand_mask m of
        Inl e \<Rightarrow> Inl e
      | Inr mask2d \<Rightarrow>
          let data = matrix;
              dist_bins = 0 # logbins_1_N;
              n_pixels_arr = replicate (length (tl dist_bins)) 0;
              sum_pixels_arr = replicate (length (tl dist_bins)) (Fin 0);
              (data, n_pixels_arr, sum_pixels_arr) =
                fold (oe_bin mask2d N) (bins_of dist_bins) (data, n_pixels_arr, sum_pixels_arr)
          in Inr (data, dist_bins, sum_pixels_arr, n_pixels_arr))"

text \<open>
  \<open>observed_over_expected(matrix, mask, dist_bin_edge_ratio=1.03)\<close>, lines 415-499:
  the error of the mask is raised first, then \<open>logbins(1, N, dist_bin_edge_ratio)\<close> is
  called, and an error of \<open>logbins\<close> is an error of the function. The edges are
  integers; the loops run over \<open>range(lo, hi)\<close>.
\<close>

definition observed_over_expected ::
    "numpy \<Rightarrow> matrix \<Rightarrow> mask_arg \<Rightarrow> double \<Rightarrow>
       error + (matrix \<times> nat list \<times> vector \<times> nat list)" where
  "observed_over_expected np matrix m dist_bin_edge_ratio =
     (let N = length matrix in
      case expand_mask m of
        Inl e \<Rightarrow> Inl e
      | Inr mask2d \<Rightarrow>
          (case logbins np 1 (int N) dist_bin_edge_ratio (Fin 0) False of
             Inl e \<Rightarrow> Inl e
           | Inr edges \<Rightarrow> oe_with_edges matrix m (map nat edges)))"

text \<open>
  The pixels of a bin in the words of the specification: one pixel for each pair
  \<open>M[i+d, i]\<close>, \<open>M[i, i+d]\<close> with \<open>d\<close> in the bin, the one of the lower triangle;
  the sum, the number and the mean of those that are valid.
\<close>

definition bin_pixels :: "bool list list \<Rightarrow> nat \<Rightarrow> nat \<Rightarrow> nat \<Rightarrow> (nat \<times> nat) list" where
  "bin_pixels mask2d N lo hi =
     filter (\<lambda>(i, j). valid_pixel mask2d i j)
       (concat (map (\<lambda>d. map (\<lambda>i. (i + d, i)) [0..<N - d]) [lo..<hi]))"

definition bin_sum :: "matrix \<Rightarrow> bool list list \<Rightarrow> nat \<Rightarrow> nat \<Rightarrow> nat \<Rightarrow> double" where
  "bin_sum M mask2d N lo hi = dsum (map (\<lambda>(i, j). mat_get M i j) (bin_pixels mask2d N lo hi))"

definition bin_count :: "bool list list \<Rightarrow> nat \<Rightarrow> nat \<Rightarrow> nat \<Rightarrow> nat" where
  "bin_count mask2d N lo hi = length (bin_pixels mask2d N lo hi)"

definition bin_mean :: "matrix \<Rightarrow> bool list list \<Rightarrow> nat \<Rightarrow> nat \<Rightarrow> nat \<Rightarrow> double" where
  "bin_mean M mask2d N lo hi =
     ddiv (bin_sum M mask2d N lo hi) (Fin (real (bin_count mask2d N lo hi)))"

text \<open>
  The diagonal offset \<open>|i - j|\<close> of a pixel, the offsets of the bin \<open>[lo, hi)\<close>, and
  the pixel of a bin after the normalization: divided by the mean of the bin when the
  pixel of its pair in the lower triangle is valid and the mean is not zero, left as it
  is otherwise.
\<close>

definition pixel_offset :: "nat \<Rightarrow> nat \<Rightarrow> nat" where
  "pixel_offset i j = (if j \<le> i then i - j else j - i)"

definition in_bin :: "nat \<Rightarrow> nat \<Rightarrow> nat \<Rightarrow> nat \<Rightarrow> bool" where
  "in_bin lo hi i j = (lo \<le> pixel_offset i j \<and> pixel_offset i j < hi)"

definition normalized_pixel ::
    "matrix \<Rightarrow> bool list list \<Rightarrow> nat \<Rightarrow> nat \<Rightarrow> nat \<Rightarrow> nat \<Rightarrow> nat \<Rightarrow> double" where
  "normalized_pixel M mask2d N lo hi i j =
     (if valid_pixel mask2d (max i j) (min i j) \<and> bin_mean M mask2d N lo hi \<noteq> Fin 0
      then ddiv (mat_get M i j) (bin_mean M mask2d N lo hi)
      else mat_get M i j)"

text \<open>
  Two bins of the loop, the first before the second: they have different indices and
  the first ends where the second starts, or before.
\<close>

definition bin_before :: "nat \<times> nat \<times> nat \<Rightarrow> nat \<times> nat \<times> nat \<Rightarrow> bool" where
  "bin_before b c = (fst b \<noteq> fst c \<and> snd (snd b) \<le> fst (snd c))"

section \<open>Arrays as shared buffers\<close>

text \<open>
  A numpy array is a mutable buffer, and a function that writes into its argument
  changes the caller's array. The store is the list of the buffers allocated so far;
  an array is the index of its buffer. \<open>arr.copy()\<close>, \<open>np.array(arr)\<close> and an
  arithmetic expression allocate a new buffer at the end of the store.
\<close>

type_synonym ref = nat
type_synonym heap = "matrix list"

definition alloc :: "heap \<Rightarrow> matrix \<Rightarrow> ref \<times> heap" where
  "alloc h m = (length h, h @ [m])"

definition np_copy :: "heap \<Rightarrow> ref \<Rightarrow> ref \<times> heap" where
  "np_copy h arr = alloc h (h ! arr)"

text \<open>
  \<open>arr.shape[1]\<close>, \<open>arr.size\<close> and \<open>arr.flat[p] = v\<close> for a 2-D array in row-major
  order, given as the list of its rows, all of one length. An array with no row is
  taken to have no column: it has no element to write either way.
\<close>

definition ncols :: "'a list list \<Rightarrow> nat" where
  "ncols arr = (case arr of [] \<Rightarrow> 0 | row # _ \<Rightarrow> length row)"

definition flat_size :: "'a list list \<Rightarrow> nat" where
  "flat_size arr = length arr * ncols arr"

definition flat_set :: "'a list list \<Rightarrow> nat \<Rightarrow> 'a \<Rightarrow> 'a list list" where
  "flat_set arr p v = mat_set arr (p div ncols arr) (p mod ncols arr) v"

text \<open>
  The positions \<open>start, start + step, ...\<close> below \<open>stop\<close>, and
  \<open>arr.flat[a:b:step] = x\<close> for a scalar \<open>x\<close> and a positive step: the bounds are
  those of a Python slice, with the size for the end \<open>None\<close>, and the elements
  are written in place.
\<close>

definition strided :: "nat \<Rightarrow> nat \<Rightarrow> nat \<Rightarrow> nat list" where
  "strided start stop step = map (\<lambda>k. start + k * step) [0..<(stop - start + step - 1) div step]"

definition flat_slice_assign :: "'a list list \<Rightarrow> int \<Rightarrow> int option \<Rightarrow> nat \<Rightarrow> 'a \<Rightarrow> 'a list list" where
  "flat_slice_assign arr a b step x =
     (let n = flat_size arr;
          start = py_index n a;
          stop = (case b of None \<Rightarrow> n | Some b \<Rightarrow> py_index n b)
      in fold (\<lambda>p arr. flat_set arr p x) (strided start stop step) arr)"

section \<open>Diagonal utilities\<close>

text \<open>
  In the functions below the argument \<open>copy\<close> is \<open>None\<close> when the caller does not
  supply it, and the default of the source is taken. The value written is a scalar, as
  in the calls of the repository. Each function returns the array it worked on and the
  store.
\<close>

text \<open>\<open>set_diag(arr, x, i=0, copy=False)\<close>, lines 27-39.\<close>

definition set_diag :: "heap \<Rightarrow> ref \<Rightarrow> double \<Rightarrow> int \<Rightarrow> bool option \<Rightarrow> ref \<times> heap" where
  "set_diag h arr x i copy =
     (let copy = (case copy of None \<Rightarrow> False | Some c \<Rightarrow> c);
          (arr, h) = (if copy then np_copy h arr else (arr, h));
          n = int (ncols (h ! arr))
      in (arr, h[arr := flat_slice_assign (h ! arr)
                          (max i (- n * i)) (Some (max 0 (n - i) * n)) (nat (n + 1)) x]))"

text \<open>
  \<open>fill_diagonal(arr, values, k=0, wrap=False, copy=True)\<close>, lines 42-81;
  \<open>np.asarray\<close> of an array is the array itself.
\<close>

definition fill_diagonal :: "heap \<Rightarrow> ref \<Rightarrow> double \<Rightarrow> int \<Rightarrow> bool \<Rightarrow> bool option \<Rightarrow> ref \<times> heap" where
  "fill_diagonal h arr values k wrap copy =
     (let copy = (case copy of None \<Rightarrow> True | Some c \<Rightarrow> c);
          (arr, h) = (if copy then np_copy h arr else (arr, h));
          start = k;
          step = ncols (h ! arr) + 1;
          stop = (if wrap then None else Some (start + int (ncols (h ! arr) * ncols (h ! arr))))
      in (arr, h[arr := flat_slice_assign (h ! arr) start stop step values]))"

text \<open>\<open>fill_na(arr, value=0, copy=True)\<close>, lines 84-102.\<close>

definition fill_na :: "heap \<Rightarrow> ref \<Rightarrow> double \<Rightarrow> bool option \<Rightarrow> ref \<times> heap" where
  "fill_na h arr val copy =
     (let copy = (case copy of None \<Rightarrow> True | Some c \<Rightarrow> c);
          (arr, h) = (if copy then np_copy h arr else (arr, h))
      in (arr, h[arr := map (map (\<lambda>v. if isnan v then val else v)) (h ! arr)]))"

text \<open>
  \<open>fill_inf(arr, pos_value=0, neg_value=0, copy=True)\<close>, lines 105-129: the two
  assignments one after the other.
\<close>

definition fill_inf :: "heap \<Rightarrow> ref \<Rightarrow> double \<Rightarrow> double \<Rightarrow> bool option \<Rightarrow> ref \<times> heap" where
  "fill_inf h arr pos_value neg_value copy =
     (let copy = (case copy of None \<Rightarrow> True | Some c \<Rightarrow> c);
          (arr, h) = (if copy then np_copy h arr else (arr, h));
          h = h[arr := map (map (\<lambda>v. if isposinf v then pos_value else v)) (h ! arr)];
          h = h[arr := map (map (\<lambda>v. if isneginf v then neg_value else v)) (h ! arr)]
      in (arr, h))"

text \<open>\<open>fill_nainf(arr, value=0, copy=True)\<close>, lines 132-152.\<close>

definition fill_nainf :: "heap \<Rightarrow> ref \<Rightarrow> double \<Rightarrow> bool option \<Rightarrow> ref \<times> heap" where
  "fill_nainf h arr val copy =
     (let copy = (case copy of None \<Rightarrow> True | Some c \<Rightarrow> c);
          (arr, h) = (if copy then np_copy h arr else (arr, h))
      in (arr, h[arr := map (map (\<lambda>v. if \<not> isfinite v then val else v)) (h ! arr)]))"

section \<open>Insulation score: \<open>insul_diamond\<close>\<close>

text \<open>
  \<open>np.nanmean\<close> and \<open>np.nanmedian\<close> of a 1-D array: the mean and the median of the
  entries that are not NaN, and NaN when there is none. The median of an even number
  of entries is the mean of the two in the middle.
\<close>

definition np_nanmean :: "vector \<Rightarrow> double" where
  "np_nanmean xs = (let ys = filter (\<lambda>x. \<not> isnan x) xs in if ys = [] then NaN else np_mean ys)"

fun dinsert :: "double \<Rightarrow> vector \<Rightarrow> vector" where
  "dinsert x [] = [x]"
| "dinsert x (y # ys) = (if dless y x then y # dinsert x ys else x # y # ys)"

definition dsort :: "vector \<Rightarrow> vector" where
  "dsort xs = foldr dinsert xs []"

definition np_nanmedian :: "vector \<Rightarrow> double" where
  "np_nanmedian xs =
     (let ys = dsort (filter (\<lambda>x. \<not> isnan x) xs); n = length ys
      in if n = 0 then NaN
         else if odd n then ys ! (n div 2)
         else np_mean [ys ! (n div 2 - 1), ys ! (n div 2)])"

text \<open>
  Lines 34-46: the score of a matrix that is only read. \<open>diamond mat window i\<close> is
  the block \<open>mat[lo:i, i:hi]\<close>, flattened.
\<close>

definition diamond :: "matrix \<Rightarrow> int \<Rightarrow> nat \<Rightarrow> vector" where
  "diamond mat window i =
     (let N = int (length mat);
          lo = max 0 (int i - window);
          hi = min (int i + window) N
      in concat (map (\<lambda>row. py_slice row (int i) hi) (py_slice mat lo (int i))))"

definition insul_score :: "matrix \<Rightarrow> int \<Rightarrow> vector" where
  "insul_score mat window =
     (let N = length mat;
          score = map (\<lambda>i. np_nanmean (diamond mat window i)) [0..<N];
          norm = map (\<lambda>i. length (filter (\<lambda>x. \<not> isnan x) (diamond mat window i))) [0..<N];
          score = map (\<lambda>(s, n). ddiv s (Fin (real (if 0 < n then n else 1)))) (zip score norm);
          med = np_nanmedian score
      in map (\<lambda>s. ddiv s med) score)"

text \<open>
  \<open>insul_diamond(mat, window=10, ignore_diags=2)\<close>, lines 6-47: when \<open>ignore_diags\<close>
  is not zero, the matrix is copied and the diagonals \<open>-ignore_diags, ..., ignore_diags\<close>
  of the copy are set to NaN, by \<open>set_diag\<close> with its default \<open>copy\<close>.
\<close>

definition insul_diamond :: "heap \<Rightarrow> ref \<Rightarrow> int \<Rightarrow> int \<Rightarrow> vector \<times> heap" where
  "insul_diamond h mat window ignore_diags =
     (let (mat, h) =
            (if ignore_diags \<noteq> 0
             then let (mat, h) = np_copy h mat
                  in (mat, fold (\<lambda>i h. snd (set_diag h mat NaN i None))
                             [- ignore_diags..ignore_diags] h)
             else (mat, h))
      in (insul_score (h ! mat) window, h))"

section \<open>The balancer and the normalizer on shared buffers\<close>

text \<open>
  \<open>iterative_correction_symmetric\<close>, lines 521-568, with the store: \<open>_x = x.copy()\<close>,
  the loops write into \<open>_x\<close>, and \<open>_x * corr * corr\<close> is a new array. \<open>dt\<close> is the
  element type of \<open>x\<close>.
\<close>

definition iterative_correction_symmetric_call ::
    "dtype \<Rightarrow> heap \<Rightarrow> ref \<Rightarrow> nat \<Rightarrow> nat \<Rightarrow> double \<Rightarrow> (ref \<times> vector \<times> report) \<times> heap" where
  "iterative_correction_symmetric_call dt h x max_iter ignore_diags tol =
     (let N = length (h ! x);
          (x', h) = np_copy h x;
          h = (if 0 < ignore_diags then h[x' := zero_diags ignore_diags (h ! x')] else h);
          st = \<lparr>st_x = h ! x', st_totalBias = replicate N (Fin 1),
                st_mask = map (\<lambda>v. v = Fin 0) (row_sums (h ! x')),
                st_converged = False, st_iternum = 0\<rparr>;
          st = ic_loop dt max_iter tol 0 st;
          h = h[x' := st_x st];
          corr = np_mean (select (st_totalBias st) (map Not (st_mask st)));
          (x', h) = alloc h (map (map (\<lambda>v. dmul (dmul v corr) corr)) (h ! x'));
          totalBias = map (\<lambda>b. ddiv b corr) (st_totalBias st)
      in ((x', totalBias, \<lparr>converged = st_converged st, iternum = st_iternum st\<rparr>), h))"

text \<open>
  \<open>observed_over_expected\<close>, lines 451-499, with the store:
  \<open>data = np.array(matrix, dtype=np.double, order="C")\<close> is a new array, and the loop
  over the bins writes into \<open>data\<close>. The error of the mask is raised before the copy,
  an error of \<open>logbins\<close> after it.
\<close>

definition observed_over_expected_call ::
    "numpy \<Rightarrow> heap \<Rightarrow> ref \<Rightarrow> mask_arg \<Rightarrow> double \<Rightarrow>
       (error + (ref \<times> nat list \<times> vector \<times> nat list)) \<times> heap" where
  "observed_over_expected_call np h matrix m dist_bin_edge_ratio =
     (let N = length (h ! matrix) in
      case expand_mask m of
        Inl e \<Rightarrow> (Inl e, h)
      | Inr mask2d \<Rightarrow>
          let (data, h) = np_copy h matrix
          in case logbins np 1 (int N) dist_bin_edge_ratio (Fin 0) False of
               Inl e \<Rightarrow> (Inl e, h)
             | Inr edges \<Rightarrow>
          let dist_bins = 0 # map nat edges;
              n_pixels_arr = replicate (length (tl dist_bins)) 0;
              sum_pixels_arr = replicate (length (tl dist_bins)) (Fin 0);
              (d, n_pixels_arr, sum_pixels_arr) =
                fold (oe_bin mask2d N) (bins_of dist_bins) (h ! data, n_pixels_arr, sum_pixels_arr);
              h = h[data := d]
          in (Inr (data, dist_bins, sum_pixels_arr, n_pixels_arr), h))"

section \<open>Facts about arrays\<close>

lemma shape_mat_set: "map length (mat_set m i j v) = map length m"
  by (cases "i < length m") (simp_all add: mat_set_def map_update list_update_same_conv list_update_beyond)

lemma length_mat_set: "length (mat_set m i j v) = length m"
  by (simp add: mat_set_def)

lemma length_row_mat_set: "length (mat_set m i j v ! k) = length (m ! k)"
  by (cases "i < length m") (simp_all add: mat_set_def nth_list_update list_update_beyond)

lemma mat_get_mat_set:
  "i < length m \<Longrightarrow> j < length (m ! i) \<Longrightarrow>
     mat_get (mat_set m i j v) i' j' = (if i' = i \<and> j' = j then v else mat_get m i' j')"
  by (simp add: mat_get_def mat_set_def nth_list_update)

lemma square_nth: "square N m \<Longrightarrow> i < N \<Longrightarrow> length (m ! i) = N"
  by (simp add: square_def list_all_length)

lemma square_length: "square N m \<Longrightarrow> length m = N"
  by (simp add: square_def)

lemma square_shape: "square N m \<longleftrightarrow> map length m = replicate N N"
  by (auto simp: square_def list_all_length list_eq_iff_nth_eq)

lemma square_mat_set: "square N m \<Longrightarrow> square N (mat_set m i j v)"
  by (simp add: square_shape shape_mat_set)

lemma mat_eqI:
  assumes "square N a" "square N b"
    and "\<And>i j. i < N \<Longrightarrow> j < N \<Longrightarrow> mat_get a i j = mat_get b i j"
  shows "a = b"
proof (rule nth_equalityI)
  show "length a = length b" using assms by (simp add: square_def)
  fix i assume "i < length a"
  then have i: "i < N" using assms by (simp add: square_def)
  show "a ! i = b ! i"
  proof (rule nth_equalityI)
    show "length (a ! i) = length (b ! i)" using assms i by (simp add: square_nth)
    fix j assume "j < length (a ! i)"
    then have "j < N" using assms i by (simp add: square_nth)
    then show "a ! i ! j = b ! i ! j" using assms(3) [OF i] by (simp add: mat_get_def)
  qed
qed

lemma cell_loop_square: "square N m \<Longrightarrow> square N (cell_loop f ps m)"
  unfolding cell_loop_def
  by (induction ps arbitrary: m) (auto simp: square_mat_set)

lemma cell_loop_get:
  assumes "square N m" "distinct ps" "\<forall>(i, j) \<in> set ps. i < N \<and> j < N" "i < N" "j < N"
  shows "mat_get (cell_loop f ps m) i j =
     (if (i, j) \<in> set ps then f i j (mat_get m i j) else mat_get m i j)"
  using assms
proof (induction ps arbitrary: m)
  case Nil
  then show ?case by (simp add: cell_loop_def)
next
  case (Cons p ps)
  obtain a b where p: "p = (a, b)" by (cases p)
  let ?m = "mat_set m a b (f a b (mat_get m a b))"
  have ab: "a < N" "b < N" "(a, b) \<notin> set ps" using Cons.prems p by auto
  have sq: "square N ?m" using Cons.prems by (simp add: square_mat_set)
  have step: "cell_loop f ((a, b) # ps) m = cell_loop f ps ?m"
    by (simp add: cell_loop_def)
  have "mat_get (cell_loop f ps ?m) i j =
      (if (i, j) \<in> set ps then f i j (mat_get ?m i j) else mat_get ?m i j)"
    using Cons.prems sq by (intro Cons.IH) auto
  moreover have "mat_get ?m i j = (if i = a \<and> j = b then f a b (mat_get m a b) else mat_get m i j)"
    using Cons.prems ab by (simp add: mat_get_mat_set square_length square_nth)
  ultimately show ?case
    using ab unfolding p step by auto
qed

lemma astype_Float64 [simp]: "astype Float64 v = v"
  by (simp add: astype_def)

lemma trunc_of_int [simp]: "trunc (of_int n) = n"
  by (simp add: trunc_def)

section \<open>The lazy Toeplitz matrix materializes the blocks of the full matrix\<close>

lemma length_py_slice:
  "0 \<le> a \<Longrightarrow> a \<le> b \<Longrightarrow> b \<le> int (length xs) \<Longrightarrow> length (py_slice xs a b) = nat (b - a)"
  by (auto simp: py_slice_def py_index_def Let_def)

lemma nth_py_slice:
  "0 \<le> a \<Longrightarrow> a \<le> b \<Longrightarrow> b \<le> int (length xs) \<Longrightarrow> k < nat (b - a) \<Longrightarrow>
     py_slice xs a b ! k = xs ! (nat a + k)"
  by (auto simp: py_slice_def py_index_def Let_def)

lemma length_py_slice_rev:
  "0 \<le> b \<Longrightarrow> b \<le> a \<Longrightarrow> a < int (length xs) \<Longrightarrow> length (py_slice_rev xs a b) = nat (a - b)"
  by (auto simp: py_slice_rev_def py_index_rev_def Let_def)

lemma nth_py_slice_rev:
  "0 \<le> b \<Longrightarrow> b \<le> a \<Longrightarrow> a < int (length xs) \<Longrightarrow> k < nat (a - b) \<Longrightarrow>
     py_slice_rev xs a b ! k = xs ! (nat a - k)"
  by (auto simp: py_slice_rev_def py_index_rev_def Let_def nat_diff_distrib)

lemma toeplitz_eqI:
  assumes "length c = n" "length r = m"
    and "\<And>a b. a < n \<Longrightarrow> b < m \<Longrightarrow> (if b \<le> a then c ! (a - b) else r ! (b - a)) = f a b"
  shows "toeplitz c r = map (\<lambda>a. map (f a) [0..<m]) [0..<n]"
  using assms by (simp add: toeplitz_def)

lemma full_block_shift:
  "full_block C R i0 i1 j0 j1 =
     map (\<lambda>a. map (\<lambda>b. full_matrix C R (i0 + a) (j0 + b)) [0..<j1 - j0]) [0..<i1 - i0]"
  unfolding full_block_def
  by (rule nth_equalityI) (auto intro!: nth_equalityI)

lemma nth_eqI: "i = j \<Longrightarrow> xs ! i = xs ! j"
  by simp

text \<open>The two effective vectors of an off-diagonal query, on natural-number bounds.\<close>

lemma effective_col:
  fixes X Y :: "'a list"
  assumes "p < length X" "q - p \<le> length Y"
  defines "c \<equiv> py_slice_rev X (int p) (max 0 (int p - int q)) @ py_slice Y 0 (max 0 (int q - int p))"
  shows "length c = q" and "\<And>k. k < q \<Longrightarrow> c ! k = (if k < p then X ! (p - k) else Y ! (k - p))"
proof -
  have m: "max 0 (int p - int q) = int (p - q)" "max 0 (int q - int p) = int (q - p)"
    by auto
  have l1: "length (py_slice_rev X (int p) (int (p - q))) = p - (p - q)"
    using assms by (simp add: length_py_slice_rev)
  have l2: "length (py_slice Y 0 (int (q - p))) = q - p"
    using assms by (simp add: length_py_slice)
  show "length c = q"
    unfolding c_def m using l1 l2 by simp
  fix k assume k: "k < q"
  show "c ! k = (if k < p then X ! (p - k) else Y ! (k - p))"
  proof (cases "k < p")
    case True
    then have kk: "k < nat (int p - int (p - q))" "k < p - (p - q)" using k by linarith+
    then have "py_slice_rev X (int p) (int (p - q)) ! k = X ! (p - k)"
      using assms by (simp add: nth_py_slice_rev)
    then show ?thesis
      unfolding c_def m using l1 True kk(2) by (simp add: nth_append)
  next
    case False
    then have pq: "p - (p - q) = p" "k - p < nat (int (q - p) - 0)" using k by auto
    have "py_slice Y 0 (int (q - p)) ! (k - p) = Y ! (nat 0 + (k - p))"
      using assms pq(2) by (intro nth_py_slice) auto
    then show ?thesis
      unfolding c_def m using l1 False pq by (simp add: nth_append)
  qed
qed

lemma effective_row:
  fixes X :: "'a list"
  assumes "p \<le> q" "q \<le> length X"
  shows "length (py_slice X (int p) (int q)) = q - p"
    and "\<And>k. k < q - p \<Longrightarrow> py_slice X (int p) (int q) ! k = X ! (p + k)"
  using assms by (simp_all add: length_py_slice nth_py_slice)

lemma getitem_cases:
  "getitem t i0 i1 j0 j1 =
    (if i0 = j0 \<and> i1 = j1 then
        toeplitz (py_slice (lt_c t) 0 (i1 - i0)) (py_slice (lt_r t) 0 (j1 - j0))
     else if j0 < i0 \<or> (i0 = j0 \<and> i1 < j1) then
        toeplitz (py_slice (lt_c t) (i0 - j0) (i1 - j0))
          (py_slice_rev (lt_c t) (i0 - j0) (max 0 (i0 - j1)) @ py_slice (lt_r t) 0 (max 0 (j1 - i0)))
     else
        toeplitz (py_slice_rev (lt_r t) (j0 - i0) (max 0 (j0 - i1)) @ py_slice (lt_c t) 0 (max 0 (i1 - j0)))
          (py_slice (lt_r t) (j0 - i0) (j1 - i0)))"
  by (simp add: getitem_def Let_def)

lemma block_above:
  fixes C R :: "'a list"
  assumes "i0 \<le> j0" "i0 < i1" "i1 \<le> length C" "j0 < j1" "j1 \<le> length R" "C ! 0 = R ! 0"
  shows "toeplitz (py_slice_rev R (int j0 - int i0) (max 0 (int j0 - int i1)) @
            py_slice C 0 (max 0 (int i1 - int j0)))
          (py_slice R (int j0 - int i0) (int j1 - int i0)) = full_block C R i0 i1 j0 j1"
proof -
  define p where "p = j0 - i0"
  define q where "q = i1 - i0"
  define m where "m = j1 - i0"
  have e: "int j0 - int i0 = int p" "int j0 - int i1 = int p - int q"
    "int i1 - int j0 = int q - int p" "int j1 - int i0 = int m"
    using assms by (auto simp: p_def q_def m_def)
  have b: "p < length R" "q - p \<le> length C" "p \<le> m" "m \<le> length R"
    using assms by (auto simp: p_def q_def m_def)
  note col = effective_col [OF b(1) b(2)]
  note row = effective_row [OF b(3) b(4)]
  have dims: "i1 - i0 = q" "j1 - j0 = m - p"
    using assms by (auto simp: p_def q_def m_def)
  show ?thesis
    unfolding full_block_shift e dims
  proof (rule toeplitz_eqI [OF col(1) row(1)])
    fix a b assume ab: "a < q" "b < m - p"
    show "(if b \<le> a then (py_slice_rev R (int p) (max 0 (int p - int q)) @
              py_slice C 0 (max 0 (int q - int p))) ! (a - b)
           else py_slice R (int p) (int m) ! (b - a)) = full_matrix C R (i0 + a) (j0 + b)"
    proof (cases "b \<le> a")
      case True
      then have "a - b < q" using ab by simp
      from col(2) [OF this] True show ?thesis
        using assms ab
        by (auto simp: full_matrix_def p_def intro!: nth_eqI)
    next
      case False
      then have "b - a < m - p" using ab by simp
      from row(2) [OF this] False show ?thesis
        using assms ab
        by (auto simp: full_matrix_def p_def intro!: nth_eqI)
    qed
  qed
qed

lemma block_below:
  fixes C R :: "'a list"
  assumes "j0 \<le> i0" "i0 < i1" "i1 \<le> length C" "j0 < j1" "j1 \<le> length R" "C ! 0 = R ! 0"
  shows "toeplitz (py_slice C (int i0 - int j0) (int i1 - int j0))
          (py_slice_rev C (int i0 - int j0) (max 0 (int i0 - int j1)) @
            py_slice R 0 (max 0 (int j1 - int i0))) = full_block C R i0 i1 j0 j1"
proof -
  define p where "p = i0 - j0"
  define q where "q = j1 - j0"
  define m where "m = i1 - j0"
  have e: "int i0 - int j0 = int p" "int i0 - int j1 = int p - int q"
    "int j1 - int i0 = int q - int p" "int i1 - int j0 = int m"
    using assms by (auto simp: p_def q_def m_def)
  have b: "p < length C" "q - p \<le> length R" "p \<le> m" "m \<le> length C"
    using assms by (auto simp: p_def q_def m_def)
  note row = effective_col [OF b(1) b(2)]
  note col = effective_row [OF b(3) b(4)]
  have dims: "j1 - j0 = q" "i1 - i0 = m - p"
    using assms by (auto simp: p_def q_def m_def)
  show ?thesis
    unfolding full_block_shift e dims
  proof (rule toeplitz_eqI [OF col(1) row(1)])
    fix a b assume ab: "a < m - p" "b < q"
    show "(if b \<le> a then py_slice C (int p) (int m) ! (a - b)
           else (py_slice_rev C (int p) (max 0 (int p - int q)) @
              py_slice R 0 (max 0 (int q - int p))) ! (b - a)) = full_matrix C R (i0 + a) (j0 + b)"
    proof (cases "b \<le> a")
      case True
      then have "a - b < m - p" using ab by simp
      from col(2) [OF this] True show ?thesis
        using assms ab
        by (auto simp: full_matrix_def p_def intro!: nth_eqI)
    next
      case False
      then have "b - a < q" using ab by simp
      from row(2) [OF this] False show ?thesis
        using assms ab
        by (auto simp: full_matrix_def p_def intro!: nth_eqI)
    qed
  qed
qed

lemma block_sym:
  fixes C R :: "'a list"
  assumes "i0 < i1" "i1 \<le> length C" "i1 \<le> length R" "C ! 0 = R ! 0"
  shows "toeplitz (py_slice C 0 (int i1 - int i0)) (py_slice R 0 (int i1 - int i0)) =
     full_block C R i0 i1 i0 i1"
proof -
  have e: "int i1 - int i0 = int (i1 - i0)" using assms by simp
  have b: "0 \<le> i1 - i0" "i1 - i0 \<le> length C" "i1 - i0 \<le> length R" using assms by auto
  note col = effective_row [OF b(1) b(2)]
  note row = effective_row [OF b(1) b(3)]
  show ?thesis
    unfolding full_block_shift e
  proof (rule toeplitz_eqI)
    show "length (py_slice C 0 (int (i1 - i0))) = i1 - i0" using col(1) by simp
    show "length (py_slice R 0 (int (i1 - i0))) = i1 - i0" using row(1) by simp
    fix a b assume ab: "a < i1 - i0" "b < i1 - i0"
    show "(if b \<le> a then py_slice C 0 (int (i1 - i0)) ! (a - b)
           else py_slice R 0 (int (i1 - i0)) ! (b - a)) = full_matrix C R (i0 + a) (i0 + b)"
      using col(2) [of "a - b"] row(2) [of "b - a"] ab
      by (auto simp: full_matrix_def)
  qed
qed

text \<open>
  Claim C1. For first column \<open>C\<close> and first row \<open>R\<close> with \<open>C[0] = R[0]\<close> (the
  constructor accepts them) and every non-empty query rectangle \<open>[i0,i1) x [j0,j1)\<close>
  within the bounds of the matrix, the block that \<open>__getitem__\<close> materializes is
  \<open>full_matrix[i0:i1, j0:j1]\<close>, where \<open>full_matrix[i,j] = C[i-j]\<close> if \<open>i \<ge> j\<close>
  and \<open>R[j-i]\<close> otherwise. The three cases of the code (symmetric query, query
  transposed first, query taken as it is) are the three cases of the proof.
\<close>

theorem getitem_block:
  assumes init: "LazyToeplitz_init C (Some R) = Inr t"
    and rows: "0 \<le> i0" "i0 < i1" "i1 \<le> int (length C)"
    and cols: "0 \<le> j0" "j0 < j1" "j1 \<le> int (length R)"
  shows "getitem t i0 i1 j0 j1 = full_block C R (nat i0) (nat i1) (nat j0) (nat j1)"
proof -
  from init have t: "lt_c t = C" "lt_r t = R" and hd: "C ! 0 = R ! 0"
    by (auto simp: LazyToeplitz_init_def split: if_splits)
  obtain a b c d where n: "i0 = int a" "i1 = int b" "j0 = int c" "j1 = int d"
    using rows cols by (metis nat_0_le order.trans less_imp_le)
  have bounds: "a < b" "b \<le> length C" "c < d" "d \<le> length R"
    using rows cols unfolding n by simp_all
  show ?thesis
  proof (cases "a = c \<and> b = d")
    case True
    then show ?thesis
      using block_sym [of a b C R] bounds hd
      by (simp add: getitem_cases t n)
  next
    case False
    note ns = False
    show ?thesis
    proof (cases "c < a \<or> (a = c \<and> b < d)")
      case True
      then have "c \<le> a" by auto
      from block_below [OF this bounds hd] True ns show ?thesis
        by (auto simp: getitem_cases t n)
    next
      case False
      then have "a \<le> c" by auto
      from block_above [OF this bounds hd] False ns show ?thesis
        by (auto simp: getitem_cases t n)
    qed
  qed
qed

text \<open>
  The literal case of the specification, \<open>C = [1,2,3,4]\<close> and \<open>R = [1,5,6,7]\<close>:
  the block \<open>[0:2, 0:2]\<close> is \<open>[[1,5],[2,1]]\<close> and the block \<open>[2:4, 0:2]\<close> is
  \<open>[[3,2],[4,3]]\<close>.
\<close>

theorem getitem_block_witness:
  "LazyToeplitz_init [1, 2, 3, 4 :: int] (Some [1, 5, 6, 7]) =
     Inr \<lparr>lt_c = [1, 2, 3, 4], lt_r = [1, 5, 6, 7]\<rparr> \<and>
   getitem \<lparr>lt_c = [1, 2, 3, 4 :: int], lt_r = [1, 5, 6, 7]\<rparr> 0 2 0 2 = [[1, 5], [2, 1]] \<and>
   getitem \<lparr>lt_c = [1, 2, 3, 4 :: int], lt_r = [1, 5, 6, 7]\<rparr> 2 4 0 2 = [[3, 2], [4, 3]]"
  using getitem_block [of "[1, 2, 3, 4 :: int]" "[1, 5, 6, 7]" _ 0 2 0 2]
    getitem_block [of "[1, 2, 3, 4 :: int]" "[1, 5, 6, 7]" _ 2 4 0 2]
  by (simp add: LazyToeplitz_init_def full_block_def full_matrix_def upt_rec)

text \<open>
  The block \<open>[2:4, 0:2]\<close> is not the \<open>[[3,6],[4,3]]\<close> of the specification: its
  entry in row 2, column 1 is \<open>C[1] = 2\<close>. And on a query with an empty column range
  at the end of the matrix, \<open>[0:1, 2:2]\<close> of a 2 by 2 matrix, the code returns an
  array of no rows where the block of the full matrix has one (empty) row.
\<close>

theorem getitem_block_counterexample:
  "getitem \<lparr>lt_c = [1, 2, 3, 4 :: int], lt_r = [1, 5, 6, 7]\<rparr> 2 4 0 2 \<noteq> [[3, 6], [4, 3]] \<and>
   getitem \<lparr>lt_c = [1, 2 :: int], lt_r = [1, 5]\<rparr> 0 1 2 2 \<noteq> full_block [1, 2] [1, 5] 0 1 2 2"
  by (simp add: getitem_def toeplitz_def py_slice_def py_slice_rev_def py_index_def
      py_index_rev_def full_block_def full_matrix_def upt_rec Let_def)

section \<open>Facts about double arithmetic\<close>

lemma dadd_commute: "dadd a b = dadd b a"
  by (cases a; cases b) simp_all

lemma dmul_commute: "dmul a b = dmul b a"
  by (cases a; cases b) (simp_all add: mult.commute)

lemma ddiv_one [simp]: "ddiv a (Fin 1) = a"
  by (cases a) simp_all

lemma dmul_one [simp]: "dmul a (Fin 1) = a" "dmul (Fin 1) a = a"
  by (cases a; simp add: signed_inf_def)+

lemma select_map: "select (map f xs) (map g xs) = map f (filter g xs)"
  by (induction xs) (simp_all add: select_def)

lemma map_by_index: "map f xs = map (\<lambda>i. f (xs ! i)) [0..<length xs]"
  by (rule nth_equalityI) simp_all

lemma zip_map_index:
  "length xs = n \<Longrightarrow> map h (zip xs (map g [0..<n])) = map (\<lambda>i. h (xs ! i, g i)) [0..<n]"
  by (rule nth_equalityI) simp_all

lemma cell_loop_all:
  assumes "square N m"
  shows "cell_loop f (concat (map (\<lambda>i. map (\<lambda>j. (i, j)) [0..<N]) [0..<N])) m =
     map (\<lambda>i. map (\<lambda>j. f i j (m ! i ! j)) [0..<N]) [0..<N]"
proof (rule mat_eqI [where N = N])
  let ?ps = "concat (map (\<lambda>i. map (\<lambda>j. (i, j)) [0..<N]) [0..<N])"
  have ps: "?ps = List.product [0..<N] [0..<N]" by (simp add: List.product_concat_map)
  show "square N (cell_loop f ?ps m)" using assms by (rule cell_loop_square)
  show "square N (map (\<lambda>i. map (\<lambda>j. f i j (m ! i ! j)) [0..<N]) [0..<N])"
    by (simp add: square_def list_all_length)
  fix i j assume ij: "i < N" "j < N"
  have "mat_get (cell_loop f ?ps m) i j =
      (if (i, j) \<in> set ?ps then f i j (mat_get m i j) else mat_get m i j)"
    using assms ij unfolding ps by (intro cell_loop_get) (auto simp: distinct_product)
  then show "mat_get (cell_loop f ?ps m) i j =
      mat_get (map (\<lambda>i. map (\<lambda>j. f i j (m ! i ! j)) [0..<N]) [0..<N]) i j"
    using ij unfolding ps by (simp add: mat_get_def)
qed

lemma damping_eq:
  "dadd (dmul u c) b = dadd b (dmul c u)"
  by (metis dadd_commute dmul_commute)

lemma ic_iteration_dtype:
  assumes "square N x" "length totalBias = N"
  shows "ic_iteration dt x totalBias =
    (case balancer_round N x totalBias of
       (x', rest) \<Rightarrow> (map (map (astype dt)) x', rest))"
proof -
  have len: "length x = N" using assms by (simp add: square_def)
  define s where "s = (\<lambda>i. dsum (x ! i))"
  define mean where "mean = np_mean (map s (filter (\<lambda>i. \<not> s i = Fin 0) [0..<N]))"
  define s' where "s' = (\<lambda>i. dadd (Fin 1) (dmul (Fin 0.8)
      (dsub (if s i = Fin 0 then Fin 1 else ddiv (s i) mean) (Fin 1))))"
  have rs: "row_sums x = map s [0..<N]"
    unfolding row_sums_def s_def using map_by_index [of dsum x] len by simp
  have msk: "map (\<lambda>v. v = Fin 0) (row_sums x) = map (\<lambda>i. s i = Fin 0) [0..<N]"
    unfolding rs by simp
  have sel: "select (row_sums x) (map Not (map (\<lambda>v. v = Fin 0) (row_sums x))) =
      map s (filter (\<lambda>i. \<not> s i = Fin 0) [0..<N])"
    unfolding rs by (simp add: select_map [symmetric] comp_def)
  have damped: "map (\<lambda>v. dadd v (Fin 1)) (map (\<lambda>v. dmul v (Fin 0.8)) (map (\<lambda>v. dsub v (Fin 1))
      (map (\<lambda>(v, excluded). if excluded then Fin 1 else v)
        (zip (map (\<lambda>v. ddiv v mean) (row_sums x)) (map (\<lambda>v. v = Fin 0) (row_sums x)))))) =
      map s' [0..<N]"
    unfolding rs s'_def
    by (rule nth_equalityI) (simp_all add: damping_eq)
  have bias: "map (\<lambda>(b, v). dmul b v) (zip totalBias (map s' [0..<N])) =
      map (\<lambda>i. dmul (totalBias ! i) (s' i)) [0..<N]"
    using assms(2) by (simp add: zip_map_index)
  have cells: "cell_loop (\<lambda>i j v. astype dt (ddiv v (dmul (map s' [0..<N] ! i) (map s' [0..<N] ! j))))
      (concat (map (\<lambda>i. map (\<lambda>j. (i, j)) [0..<N]) [0..<N])) x =
      map (map (astype dt))
        (map (\<lambda>i. map (\<lambda>j. ddiv (x ! i ! j) (dmul (s' i) (s' j))) [0..<N]) [0..<N])"
    unfolding cell_loop_all [OF assms(1)]
    by (rule nth_equalityI) simp_all
  have "ic_iteration dt x totalBias =
      (map (map (astype dt))
         (map (\<lambda>i. map (\<lambda>j. ddiv (x ! i ! j) (dmul (s' i) (s' j))) [0..<N]) [0..<N]),
       map (\<lambda>i. dmul (totalBias ! i) (s' i)) [0..<N],
       map (\<lambda>i. s i = Fin 0) [0..<N],
       map s' [0..<N])"
    apply (simp only: ic_iteration_def Let_def len)
    apply (simp only: sel mean_def [symmetric])
    apply (simp only: damped)
    apply (simp only: bias cells msk)
    done
  moreover have "balancer_round N x totalBias =
      (map (\<lambda>i. map (\<lambda>j. ddiv (x ! i ! j) (dmul (s' i) (s' j))) [0..<N]) [0..<N],
       map (\<lambda>i. dmul (totalBias ! i) (s' i)) [0..<N],
       map (\<lambda>i. s i = Fin 0) [0..<N],
       map s' [0..<N])"
    unfolding balancer_round_def Let_def s'_def mean_def s_def ..
  ultimately show ?thesis by simp
qed

lemma map_astype_Float64: "map (map (astype Float64)) m = m"
  by (simp add: map_idI)

lemma ic_iteration_round:
  assumes "square N x" "length totalBias = N"
  shows "ic_iteration Float64 x totalBias = balancer_round N x totalBias"
  using ic_iteration_dtype [OF assms, of Float64]
  by (simp add: map_astype_Float64 split: prod.splits)

section \<open>Facts about the balancer\<close>

lemma cell_loop_const_get:
  assumes "square N m" "\<forall>(i, j) \<in> set ps. i < N \<and> j < N" "i < N" "j < N"
  shows "mat_get (cell_loop (\<lambda>i j v. c) ps m) i j = (if (i, j) \<in> set ps then c else mat_get m i j)"
  using assms
proof (induction ps arbitrary: m)
  case Nil
  then show ?case by (simp add: cell_loop_def)
next
  case (Cons p ps)
  obtain a b where p: "p = (a, b)" by (cases p)
  let ?m = "mat_set m a b c"
  have ab: "a < N" "b < N" using Cons.prems p by auto
  have sq: "square N ?m" using Cons.prems by (simp add: square_mat_set)
  have step: "cell_loop (\<lambda>i j v. c) ((a, b) # ps) m = cell_loop (\<lambda>i j v. c) ps ?m"
    by (simp add: cell_loop_def)
  have "mat_get (cell_loop (\<lambda>i j v. c) ps ?m) i j = (if (i, j) \<in> set ps then c else mat_get ?m i j)"
    using Cons.prems sq by (intro Cons.IH) auto
  moreover have "mat_get ?m i j = (if i = a \<and> j = b then c else mat_get m i j)"
    using Cons.prems ab by (simp add: mat_get_mat_set square_length square_nth)
  ultimately show ?case
    unfolding p step by auto
qed

lemma symmetric_iff:
  "symmetric N m \<longleftrightarrow> (\<forall>i<N. \<forall>j<N. mat_get m i j = mat_get m j i)"
  by (auto simp: symmetric_def list_all_iff)

lemma square_map_map: "square N (map (\<lambda>i. map (f i) [0..<N]) [0..<N])"
  by (simp add: square_def list_all_length)

lemma mat_get_map_map:
  "i < N \<Longrightarrow> j < N \<Longrightarrow> mat_get (map (\<lambda>i. map (f i) [0..<N]) [0..<N]) i j = f i j"
  by (simp add: mat_get_def)

lemma square_map_entries: "square N m \<Longrightarrow> square N (map (map f) m)"
  by (simp add: square_def list_all_length)

lemma mat_get_map_entries:
  "square N m \<Longrightarrow> i < N \<Longrightarrow> j < N \<Longrightarrow> mat_get (map (map f) m) i j = f (mat_get m i j)"
  by (simp add: mat_get_def square_def list_all_length)

text \<open>The zeroed diagonals.\<close>

lemma zero_diags_cells_bounds:
  fixes d k a N i j :: nat
  assumes "d < k" "a < N - d" "(i, j) = (a, a + d) \<or> (i, j) = (a + d, a)"
  shows "i < N \<and> j < N \<and> (i \<le> j \<and> j - i < k \<or> j \<le> i \<and> i - j < k)"
  using assms by (auto simp: less_diff_conv)

lemma zero_diags_cells_upper:
  fixes k N i j :: nat
  assumes "i < N" "j < N" "i \<le> j" "j - i < k"
  shows "\<exists>d<k. \<exists>a<N - d. i = a \<and> j = a + d \<or> i = a + d \<and> j = a"
proof (intro exI conjI)
  show "j - i < k" by fact
  show "i < N - (j - i)" using assms by simp
  show "i = i \<and> j = i + (j - i) \<or> i = i + (j - i) \<and> j = i" using assms by simp
qed

lemma zero_diags_cells_lower:
  fixes k N i j :: nat
  assumes "i < N" "j < N" "j \<le> i" "i - j < k"
  shows "\<exists>d<k. \<exists>a<N - d. i = a \<and> j = a + d \<or> i = a + d \<and> j = a"
proof (intro exI conjI)
  show "i - j < k" by fact
  show "j < N - (i - j)" using assms by simp
  show "i = j \<and> j = j + (i - j) \<or> i = j + (i - j) \<and> j = j" using assms by simp
qed

lemma zero_diags_cells:
  "(i, j) \<in> set (concat (map (\<lambda>d. concat (map (\<lambda>j. [(j, j + d), (j + d, j)]) [0..<N - d])) [0..<k])) \<longleftrightarrow>
     i < N \<and> j < N \<and> (i \<le> j \<and> j - i < k \<or> j \<le> i \<and> i - j < k)"
proof -
  have "(i, j) \<in> set (concat (map (\<lambda>d. concat (map (\<lambda>j. [(j, j + d), (j + d, j)]) [0..<N - d])) [0..<k])) \<longleftrightarrow>
      (\<exists>d<k. \<exists>a<N - d. i = a \<and> j = a + d \<or> i = a + d \<and> j = a)"
    by (simp add: Bex_def)
  also have "\<dots> \<longleftrightarrow> i < N \<and> j < N \<and> (i \<le> j \<and> j - i < k \<or> j \<le> i \<and> i - j < k)"
    using zero_diags_cells_bounds [of _ k _ N i j] zero_diags_cells_upper [of i N j k] zero_diags_cells_lower [of i N j k] by blast
  finally show ?thesis .
qed

lemma square_zero_diags: "square N x \<Longrightarrow> square N (zero_diags k x)"
  by (simp add: zero_diags_def Let_def cell_loop_square)

lemma mat_get_zero_diags:
  assumes "square N x" "i < N" "j < N"
  shows "mat_get (zero_diags k x) i j =
     (if i \<le> j \<and> j - i < k \<or> j \<le> i \<and> i - j < k then Fin 0 else mat_get x i j)"
proof -
  have len: "length x = N" using assms by (simp add: square_def)
  let ?ps = "concat (map (\<lambda>d. concat (map (\<lambda>j. [(j, j + d), (j + d, j)]) [0..<N - d])) [0..<k])"
  have "\<forall>(a, b) \<in> set ?ps. a < N \<and> b < N"
    using zero_diags_cells [of _ _ N k] by blast
  then have "mat_get (cell_loop (\<lambda>i j v. Fin 0) ?ps x) i j =
      (if (i, j) \<in> set ?ps then Fin 0 else mat_get x i j)"
    using assms by (intro cell_loop_const_get)
  then show ?thesis
    unfolding zero_diags_def Let_def len zero_diags_cells using assms by simp
qed

section \<open>The balancer keeps a symmetric matrix symmetric\<close>

text \<open>What a round keeps: the shape of the matrix and of the bias vector.\<close>

lemma balancer_round_shape:
  "balancer_round N M bias = (x, tb, msk, s) \<Longrightarrow>
     square N x \<and> length tb = N \<and> length msk = N \<and> length s = N"
  by (auto simp: balancer_round_def Let_def square_map_map)


text \<open>
  An invariant of the loop: a property of the matrix, the bias vector and the mask that
  every round keeps holds when the loop is left.
\<close>

lemma ic_loop_invariant:
  assumes step: "\<And>x tb m x' tb' msk s. I x tb m \<Longrightarrow> ic_iteration dt x tb = (x', tb', msk, s) \<Longrightarrow> I x' tb' msk"
    and init: "I (st_x st) (st_totalBias st) (st_mask st)"
  shows "I (st_x (ic_loop dt n tol it st)) (st_totalBias (ic_loop dt n tol it st))
     (st_mask (ic_loop dt n tol it st))"
  using init
proof (induction n arbitrary: st it)
  case 0
  then show ?case by simp
next
  case (Suc n)
  obtain x' tb' msk s where it: "ic_iteration dt (st_x st) (st_totalBias st) = (x', tb', msk, s)"
    by (cases "ic_iteration dt (st_x st) (st_totalBias st)") auto
  let ?st = "st\<lparr>st_x := x', st_totalBias := tb', st_mask := msk, st_iternum := it\<rparr>"
  have I': "I x' tb' msk" using step [OF Suc.prems it] .
  have "I (st_x (ic_loop dt n tol (Suc it) ?st)) (st_totalBias (ic_loop dt n tol (Suc it) ?st))
     (st_mask (ic_loop dt n tol (Suc it) ?st))"
    by (rule Suc.IH) (simp add: I')
  then show ?case
    using I' by (simp add: it Let_def)
qed


lemma dmul_NaN [simp]: "dmul a NaN = NaN"
  by (cases a) simp_all

lemma ddiv_NaN [simp]: "ddiv a NaN = NaN"
  by (cases a) simp_all

lemma symmetric_balancer_round:
  assumes "symmetric N M" "balancer_round N M bias = (x, tb, msk, s)"
  shows "symmetric N x"
proof -
  have "mat_get x i j = mat_get x j i" if "i < N" "j < N" for i j
  proof -
    have "M ! i ! j = M ! j ! i"
      using assms(1) that by (simp add: symmetric_iff mat_get_def)
    then show ?thesis
      using assms(2) that
      by (auto simp: balancer_round_def Let_def mat_get_def dmul_commute)
  qed
  then show ?thesis by (simp add: symmetric_iff)
qed

lemma symmetric_zero_diags:
  assumes "square N x" "symmetric N x"
  shows "symmetric N (zero_diags k x)"
  using assms by (auto simp: symmetric_iff mat_get_zero_diags)

lemma symmetric_map_entries:
  "square N m \<Longrightarrow> symmetric N m \<Longrightarrow> symmetric N (map (map f) m)"
  by (simp add: symmetric_iff mat_get_map_entries)

text \<open>
  Claim C7. For every symmetric \<open>N\<close> by \<open>N\<close> input matrix, of either element
  type, the corrected matrix that the balancer returns is symmetric: zeroing the ignored diagonals writes both
  triangles, every round divides \<open>M[i,j]\<close> by \<open>s'[i] * s'[j]\<close>, and the final
  renormalization multiplies every entry by the same factor.
\<close>

theorem balancer_symmetric:
  assumes sq: "square N x" and sym: "symmetric N x"
  shows "symmetric N (fst (iterative_correction_symmetric dt x max_iter ignore_diags tol))"
proof -
  define x0 where "x0 = (if 0 < ignore_diags then zero_diags ignore_diags x else x)"
  define st0 where "st0 = \<lparr>st_x = x0, st_totalBias = replicate N (Fin 1),
      st_mask = map (\<lambda>v. v = Fin 0) (row_sums x0), st_converged = False, st_iternum = 0\<rparr>"
  define st where "st = ic_loop dt max_iter tol 0 st0"
  define I where "I = (\<lambda>(x :: matrix) (tb :: vector) (m :: bool list).
      square N x \<and> symmetric N x \<and> length tb = N)"
  have x0: "square N x0" "symmetric N x0"
    using sq sym by (simp_all add: x0_def square_zero_diags symmetric_zero_diags)
  have "I (st_x st) (st_totalBias st) (st_mask st)"
    unfolding st_def
  proof (rule ic_loop_invariant)
    show "I (st_x st0) (st_totalBias st0) (st_mask st0)"
      using x0 by (simp add: I_def st0_def)
  next
    fix x tb m x' tb' msk s
    assume "I x tb m" and it: "ic_iteration dt x tb = (x', tb', msk, s)"
    then have h: "square N x" "symmetric N x" "length tb = N" by (simp_all add: I_def)
    obtain y where r: "balancer_round N x tb = (y, tb', msk, s)"
      and x': "x' = map (map (astype dt)) y"
      using it ic_iteration_dtype [OF h(1,3), of dt]
      by (cases "balancer_round N x tb") auto
    show "I x' tb' msk"
      using balancer_round_shape [OF r] symmetric_balancer_round [OF h(2) r]
      by (simp add: I_def x' square_map_entries symmetric_map_entries)
  qed
  then have fin: "square N (st_x st)" "symmetric N (st_x st)" by (simp_all add: I_def)
  have len: "length x = N" using sq by (simp add: square_def)
  have "fst (iterative_correction_symmetric dt x max_iter ignore_diags tol) =
      map (map (\<lambda>v. dmul (dmul v (np_mean (select (st_totalBias st) (map Not (st_mask st)))))
        (np_mean (select (st_totalBias st) (map Not (st_mask st)))))) (st_x st)"
    unfolding iterative_correction_symmetric_def Let_def len
    by (simp add: st_def st0_def x0_def)
  then show ?thesis
    using fin by (simp add: symmetric_map_entries)
qed

theorem balancer_symmetric_witness:
  "square 2 [[Fin 1, Fin 3], [Fin 3, Fin 5]] \<and> symmetric 2 [[Fin 1, Fin 3], [Fin 3, Fin 5]] \<and>
   symmetric 2 (fst (iterative_correction_symmetric Float64 [[Fin 1, Fin 3], [Fin 3, Fin 5]] 50 0
     (Fin (1 / 100000))))"
proof -
  have h: "square 2 [[Fin 1, Fin 3], [Fin 3, Fin 5]]" "symmetric 2 [[Fin 1, Fin 3], [Fin 3, Fin 5]]"
    by (simp_all add: square_def symmetric_def mat_get_def upt_rec)
  show ?thesis
    using h balancer_symmetric [OF h, of Float64 50 0 "Fin (1 / 100000)"] by simp
qed

section \<open>Every round of the balancer\<close>

text \<open>
  On a \<open>float64\<close> array the round of the code is the round of the specification. In
  every iteration of the balancer (a round of \<open>ic_loop\<close> from any state whose matrix
  is \<open>N\<close> by \<open>N\<close> and whose bias vector has length \<open>N\<close>) the row sums are
  recomputed from the current matrix, the mask of excluded rows is recomputed from
  \<open>s = 0\<close> (the mask of the state is not read), \<open>s\<close> is divided by its mean over
  the rows that are not excluded, the excluded entries are set to 1, the damping
  \<open>s' = 1 + 0.8 * (s - 1)\<close> is applied, the total bias is multiplied by \<open>s'\<close> and
  every entry \<open>M[i,j]\<close> is divided by \<open>s'[i] * s'[j]\<close>: the round of the code is
  \<open>balancer_round\<close>. The new matrix and bias vector have the same shape, so the
  next round is again such a round.
\<close>

lemma float64_round:
  assumes "square N (st_x st)" "length (st_totalBias st) = N"
  shows "ic_loop Float64 (Suc n) tol it st =
      (let (x, totalBias, msk, s) = balancer_round N (st_x st) (st_totalBias st);
           st' = st\<lparr>st_x := x, st_totalBias := totalBias, st_mask := msk, st_iternum := it\<rparr>
       in if dless (Fin 0) tol \<and> dless (np_var s) tol then st'\<lparr>st_converged := True\<rparr>
          else ic_loop Float64 n tol (Suc it) st') \<and>
     square N (fst (balancer_round N (st_x st) (st_totalBias st))) \<and>
     length (fst (snd (balancer_round N (st_x st) (st_totalBias st)))) = N"
proof -
  obtain x tb msk s where r: "balancer_round N (st_x st) (st_totalBias st) = (x, tb, msk, s)"
    by (cases "balancer_round N (st_x st) (st_totalBias st)") auto
  have "ic_iteration Float64 (st_x st) (st_totalBias st) = (x, tb, msk, s)"
    using assms r by (simp add: ic_iteration_round)
  then show ?thesis
    using balancer_round_shape [OF r] by (simp add: r Let_def)
qed


lemma upt_2: "[0..<2] = [0, Suc 0]"
  by (simp add: upt_rec)

lemma float64_round_example:
  "square 2 [[Fin 1, Fin 3], [Fin 3, Fin 5]] \<and> length [Fin 1, Fin 1] = 2 \<and>
   ic_loop Float64 (Suc 0) (Fin 0) 0
     \<lparr>st_x = [[Fin 1, Fin 3], [Fin 3, Fin 5]], st_totalBias = [Fin 1, Fin 1],
      st_mask = [True, True], st_converged = False, st_iternum = 0\<rparr> =
     \<lparr>st_x = [[Fin (225 / 121), Fin (675 / 209)], [Fin (675 / 209), Fin (1125 / 361)]],
      st_totalBias = [Fin (11 / 15), Fin (19 / 15)], st_mask = [False, False],
      st_converged = False, st_iternum = 0\<rparr>"
proof -
  have h: "square 2 (st_x \<lparr>st_x = [[Fin 1, Fin 3], [Fin 3, Fin 5]], st_totalBias = [Fin 1, Fin 1],
      st_mask = [True, True], st_converged = False, st_iternum = 0\<rparr>)"
    "length (st_totalBias \<lparr>st_x = [[Fin 1, Fin 3], [Fin 3, Fin 5]], st_totalBias = [Fin 1, Fin 1],
      st_mask = [True, True], st_converged = False, st_iternum = 0\<rparr>) = 2"
    by (simp_all add: square_def)
  have r: "balancer_round 2 [[Fin 1, Fin 3], [Fin 3, Fin 5]] [Fin 1, Fin 1] =
     ([[Fin (225 / 121), Fin (675 / 209)], [Fin (675 / 209), Fin (1125 / 361)]],
      [Fin (11 / 15), Fin (19 / 15)], [False, False], [Fin (11 / 15), Fin (19 / 15)])"
    by (simp add: balancer_round_def Let_def upt_2 dsum_def np_mean_def dsub_def)
  show ?thesis
    using float64_round [OF h, of 0 "Fin 0" 0]
    by (simp add: r square_def)
qed

text \<open>
  On an array of any element type the round of the code is the round of the
  specification followed by the conversion of every entry to the element type.
\<close>

lemma dtype_round:
  assumes "square N x" "length totalBias = N"
  shows "ic_iteration dt x totalBias =
    (case balancer_round N x totalBias of (x', rest) \<Rightarrow> (map (map (astype dt)) x', rest))"
  using assms by (rule ic_iteration_dtype)

text \<open>
  Claim C4 at a failing input: the matrix of counts \<open>[[1, 3], [3, 5]]\<close>, an
  \<open>int64\<close> array. The copy \<open>_x = x.copy()\<close> is an \<open>int64\<close> array too, and
  \<open>_x[i,j] /= s[i] * s[j]\<close> stores the quotient truncated: the round returns
  \<open>[[1, 3], [3, 3]]\<close>, where the entries divided by \<open>s'[i] * s'[j]\<close> are
  \<open>225/121\<close>, \<open>675/209\<close> and \<open>1125/361\<close>, and so does the function after one
  iteration.
\<close>

theorem balancer_round_int64:
  "ic_iteration Int64 [[Fin 1, Fin 3], [Fin 3, Fin 5]] [Fin 1, Fin 1] =
     ([[Fin 1, Fin 3], [Fin 3, Fin 3]],
      [Fin (11 / 15), Fin (19 / 15)], [False, False], [Fin (11 / 15), Fin (19 / 15)]) \<and>
   balancer_round 2 [[Fin 1, Fin 3], [Fin 3, Fin 5]] [Fin 1, Fin 1] =
     ([[Fin (225 / 121), Fin (675 / 209)], [Fin (675 / 209), Fin (1125 / 361)]],
      [Fin (11 / 15), Fin (19 / 15)], [False, False], [Fin (11 / 15), Fin (19 / 15)]) \<and>
   iterative_correction_symmetric Int64 [[Fin 1, Fin 3], [Fin 3, Fin 5]] 1 0 (Fin 0) =
     ([[Fin 1, Fin 3], [Fin 3, Fin 3]], [Fin (11 / 15), Fin (19 / 15)],
      \<lparr>converged = False, iternum = 0\<rparr>)"
proof -
  have 1: "ic_iteration Int64 [[Fin 1, Fin 3], [Fin 3, Fin 5]] [Fin 1, Fin 1] =
     ([[Fin 1, Fin 3], [Fin 3, Fin 3]],
      [Fin (11 / 15), Fin (19 / 15)], [False, False], [Fin (11 / 15), Fin (19 / 15)])"
    by code_simp
  have 2: "balancer_round 2 [[Fin 1, Fin 3], [Fin 3, Fin 5]] [Fin 1, Fin 1] =
     ([[Fin (225 / 121), Fin (675 / 209)], [Fin (675 / 209), Fin (1125 / 361)]],
      [Fin (11 / 15), Fin (19 / 15)], [False, False], [Fin (11 / 15), Fin (19 / 15)])"
    by code_simp
  have 3: "iterative_correction_symmetric Int64 [[Fin 1, Fin 3], [Fin 3, Fin 5]] 1 0 (Fin 0) =
     ([[Fin 1, Fin 3], [Fin 3, Fin 3]], [Fin (11 / 15), Fin (19 / 15)],
      \<lparr>converged = False, iternum = 0\<rparr>)"
    by code_simp
  show ?thesis
    using 1 2 3 by simp
qed

section \<open>The balancer on a matrix whose rows are all excluded\<close>

lemma select_none: "select xs (map Not (replicate (length xs) True)) = []"
  by (induction xs) (simp_all add: select_def)

lemma np_mean_empty: "np_mean [] = NaN"
  by (simp add: np_mean_def dsum_def signed_inf_def)

lemma balancer_round_all_excluded:
  assumes "square N M" "length bias = N" "list_all (\<lambda>row. dsum row = Fin 0) M"
  shows "balancer_round N M bias = (M, bias, replicate N True, replicate N (Fin 1))"
proof -
  have z: "dsum (M ! i) = Fin 0" if "i < N" for i
    using assms that by (simp add: list_all_length square_def)
  have one: "dadd (Fin 1) (dmul (Fin c) (dsub (Fin 1) (Fin 1))) = Fin 1" for c
    by (simp add: dsub_def)
  have 1: "map (\<lambda>i. map (\<lambda>j. ddiv (M ! i ! j) (dmul (Fin 1) (Fin 1))) [0..<N]) [0..<N] = M"
    using assms(1)
    by (intro mat_eqI [where N = N]) (simp_all add: square_map_map mat_get_map_map, simp add: mat_get_def)
  have 2: "map (\<lambda>i. dmul (bias ! i) (Fin 1)) [0..<N] = bias"
    using assms(2) by (intro nth_equalityI) simp_all
  have 3: "map (\<lambda>i. True) [0..<N] = replicate N True" "map (\<lambda>i. Fin 1) [0..<N] = replicate N (Fin 1)"
    by (simp_all add: map_replicate_const)
  have "balancer_round N M bias =
      (map (\<lambda>i. map (\<lambda>j. ddiv (M ! i ! j) (dmul (Fin 1) (Fin 1))) [0..<N]) [0..<N],
       map (\<lambda>i. dmul (bias ! i) (Fin 1)) [0..<N], map (\<lambda>i. True) [0..<N],
       map (\<lambda>i. Fin 1) [0..<N])"
    unfolding balancer_round_def Let_def
    by (simp add: z one cong: map_cong)
  then show ?thesis
    unfolding 1 2 3 .
qed


text \<open>
  Claim C3, as the code has it. For an \<open>N\<close> by \<open>N\<close> matrix of either element
  type (its entries are values of that type: the conversion to the type leaves them as
  they are) in which every row sum is zero once the ignored diagonals are zeroed, the
  balancer raises nothing: every
  round leaves the matrix and the bias as they are, the mean of the bias over the rows
  that are not excluded is the mean of an empty selection, which is NaN, and the
  function returns a corrected matrix and a bias vector whose entries are all NaN.
\<close>

theorem balancer_all_excluded:
  assumes sq: "square N x" and typed: "map (map (astype dt)) x = x"
    and zero: "list_all (\<lambda>row. dsum row = Fin 0)
      (if 0 < ignore_diags then zero_diags ignore_diags x else x)"
  shows "fst (iterative_correction_symmetric dt x max_iter ignore_diags tol) =
       replicate N (replicate N NaN) \<and>
     fst (snd (iterative_correction_symmetric dt x max_iter ignore_diags tol)) = replicate N NaN"
proof -
  define x0 where "x0 = (if 0 < ignore_diags then zero_diags ignore_diags x else x)"
  define st0 where "st0 = \<lparr>st_x = x0, st_totalBias = replicate N (Fin 1),
      st_mask = map (\<lambda>v. v = Fin 0) (row_sums x0), st_converged = False, st_iternum = 0\<rparr>"
  define st where "st = ic_loop dt max_iter tol 0 st0"
  define I where "I = (\<lambda>(x :: matrix) (tb :: vector) (m :: bool list).
      x = x0 \<and> tb = replicate N (Fin 1) \<and> m = replicate N True)"
  have x0: "square N x0" "list_all (\<lambda>row. dsum row = Fin 0) x0"
    using sq zero by (simp_all add: x0_def square_zero_diags)
  have t: "astype dt (mat_get x i j) = mat_get x i j" if "i < N" "j < N" for i j
    using mat_get_map_entries [OF sq that, of "astype dt"] typed by simp
  have z0: "astype dt (Fin 0) = Fin 0"
    by (cases dt) (simp_all add: astype_def trunc_def)
  have t0: "map (map (astype dt)) x0 = x0"
  proof (rule mat_eqI [where N = N])
    show "square N (map (map (astype dt)) x0)" using x0(1) by (rule square_map_entries)
    show "square N x0" by (rule x0(1))
    fix i j assume ij: "i < N" "j < N"
    show "mat_get (map (map (astype dt)) x0) i j = mat_get x0 i j"
      using mat_get_map_entries [OF x0(1) ij, of "astype dt"] t [OF ij] z0
      by (simp add: x0_def mat_get_zero_diags [OF sq ij])
  qed
  have m0: "map (\<lambda>v. v = Fin 0) (row_sums x0) = replicate N True"
    using x0 by (intro nth_equalityI) (simp_all add: row_sums_def square_def list_all_length)
  have "I (st_x st) (st_totalBias st) (st_mask st)"
    unfolding st_def
  proof (rule ic_loop_invariant)
    show "I (st_x st0) (st_totalBias st0) (st_mask st0)"
      by (simp add: I_def st0_def m0)
  next
    fix x tb m x' tb' msk s
    assume "I x tb m" and it: "ic_iteration dt x tb = (x', tb', msk, s)"
    then have h: "x = x0" "tb = replicate N (Fin 1)" by (simp_all add: I_def)
    have "ic_iteration dt x0 (replicate N (Fin 1)) =
        (x0, replicate N (Fin 1), replicate N True, replicate N (Fin 1))"
      using x0 ic_iteration_dtype [of N x0 "replicate N (Fin 1)" dt]
      by (simp add: balancer_round_all_excluded t0)
    with it h show "I x' tb' msk" by (simp add: I_def)
  qed
  then have fin: "st_x st = x0" "st_totalBias st = replicate N (Fin 1)" "st_mask st = replicate N True"
    by (simp_all add: I_def)
  have corr: "np_mean (select (replicate N (Fin 1)) (map Not (replicate N True))) = NaN"
    using select_none [of "replicate N (Fin 1)"] by (simp add: np_mean_empty)
  have len: "length x = N" using sq by (simp add: square_def)
  have res: "iterative_correction_symmetric dt x max_iter ignore_diags tol =
      (map (map (\<lambda>v. dmul (dmul v NaN) NaN)) x0, map (\<lambda>b. ddiv b NaN) (replicate N (Fin 1)),
       \<lparr>converged = st_converged st, iternum = st_iternum st\<rparr>)"
    apply (simp only: iterative_correction_symmetric_def Let_def len)
    apply (simp only: x0_def [symmetric])
    apply (simp only: st0_def [symmetric])
    apply (simp only: st_def [symmetric])
    apply (simp only: fin)
    apply (simp only: corr)
    done
  have "map (map (\<lambda>v. dmul (dmul v NaN) NaN)) x0 = replicate N (replicate N NaN)"
    using x0(1)
    by (intro mat_eqI [where N = N])
      (simp_all add: square_map_entries mat_get_map_entries, simp_all add: square_def mat_get_def list_all_length)
  then show ?thesis
    by (simp add: res)
qed

theorem balancer_all_excluded_witness:
  "square 2 [[Fin 3, Fin 0], [Fin 0, Fin 7]] \<and>
   map (map (astype Int64)) [[Fin 3, Fin 0], [Fin 0, Fin 7]] = [[Fin 3, Fin 0], [Fin 0, Fin 7]] \<and>
   list_all (\<lambda>row. dsum row = Fin 0) (zero_diags 1 [[Fin 3, Fin 0], [Fin 0, Fin 7]]) \<and>
   fst (iterative_correction_symmetric Int64 [[Fin 3, Fin 0], [Fin 0, Fin 7]] 10 1 (Fin (1 / 100000))) =
     [[NaN, NaN], [NaN, NaN]] \<and>
   fst (snd (iterative_correction_symmetric Int64 [[Fin 3, Fin 0], [Fin 0, Fin 7]] 10 1 (Fin (1 / 100000)))) =
     [NaN, NaN]"
proof -
  have sq: "square 2 [[Fin 3, Fin 0], [Fin 0, Fin 7]]"
    by (simp add: square_def)
  have ty: "map (map (astype Int64)) [[Fin 3, Fin 0], [Fin 0, Fin 7]] = [[Fin 3, Fin 0], [Fin 0, Fin 7]]"
    using trunc_of_int [of 3] trunc_of_int [of 0] trunc_of_int [of 7] by (simp add: astype_def)
  have z: "zero_diags 1 [[Fin 3, Fin 0], [Fin 0, Fin 7]] = [[Fin 0, Fin 0], [Fin 0, Fin 0]]"
    by (simp add: zero_diags_def cell_loop_def mat_set_def mat_get_def upt_conv_Cons)
  have h: "list_all (\<lambda>row. dsum row = Fin 0)
      (if 0 < (1::nat) then zero_diags 1 [[Fin 3, Fin 0], [Fin 0, Fin 7]]
       else [[Fin 3, Fin 0], [Fin 0, Fin 7]])"
    by (simp only: zero_less_one if_True z) (simp add: dsum_def)
  have z': "list_all (\<lambda>row. dsum row = Fin 0) (zero_diags 1 [[Fin 3, Fin 0], [Fin 0, Fin 7]])"
    by (simp only: z) (simp add: dsum_def)
  have r: "replicate 2 (replicate 2 NaN) = [[NaN, NaN], [NaN, NaN]]" "replicate 2 NaN = [NaN, NaN]"
    "replicate 2 [NaN, NaN] = [[NaN, NaN], [NaN, NaN]]"
    by (simp_all add: numeral_2_eq_2)
  show ?thesis
    using sq ty z' balancer_all_excluded [OF sq ty h, of 10 "Fin (1 / 100000)"]
    by (simp only: r)
qed

text \<open>
  The 1 by 1 zero matrix, with the default tolerance: the loop stops in its first round
  (the variance of \<open>s\<close> is 0) and the result is NaN throughout; no error is raised.
\<close>

lemma ic_iteration_zero_1x1: "ic_iteration Float64 [[Fin 0]] [Fin 1] = ([[Fin 0]], [Fin 1], [True], [Fin 1])"
  by (simp add: ic_iteration_def Let_def row_sums_def dsum_def np_mean_def select_def dsub_def
      signed_inf_def cell_loop_def mat_set_def mat_get_def)

lemma np_var_one_1x1: "np_var [Fin 1] = Fin 0"
  by (simp add: np_var_def np_mean_def dsum_def dsub_def Let_def)

lemma ic_loop_zero_1x1: "ic_loop Float64 10 (Fin (1 / 100000)) 0
     \<lparr>st_x = [[Fin 0]], st_totalBias = [Fin 1], st_mask = [True], st_converged = False, st_iternum = 0\<rparr> =
     \<lparr>st_x = [[Fin 0]], st_totalBias = [Fin 1], st_mask = [True], st_converged = True, st_iternum = 0\<rparr>"
proof -
  have e: "(10::nat) = Suc 9" by simp
  show ?thesis
    by (subst e, subst ic_loop.simps) (simp add: ic_iteration_zero_1x1 np_var_one_1x1 Let_def)
qed

theorem balancer_all_excluded_counterexample:
  "iterative_correction_symmetric Float64 [[Fin 0]] 10 0 (Fin (1 / 100000)) =
     ([[NaN]], [NaN], \<lparr>converged = True, iternum = 0\<rparr>)"
proof -
  have "iterative_correction_symmetric Float64 [[Fin 0]] 10 0 (Fin (1 / 100000)) =
      (let st = ic_loop Float64 10 (Fin (1 / 100000)) 0
          \<lparr>st_x = [[Fin 0]], st_totalBias = [Fin 1], st_mask = [True], st_converged = False, st_iternum = 0\<rparr>;
          corr = np_mean (select (st_totalBias st) (map Not (st_mask st)))
       in (map (map (\<lambda>v. dmul (dmul v corr) corr)) (st_x st), map (\<lambda>b. ddiv b corr) (st_totalBias st),
          \<lparr>converged = st_converged st, iternum = st_iternum st\<rparr>))"
    by (simp add: iterative_correction_symmetric_def Let_def row_sums_def dsum_def)
  also have "\<dots> = ([[NaN]], [NaN], \<lparr>converged = True, iternum = 0\<rparr>)"
    by (simp only: ic_loop_zero_1x1 Let_def) (simp add: select_def np_mean_def dsum_def signed_inf_def)
  finally show ?thesis .
qed

section \<open>The balancer on a scaled matrix\<close>
























section \<open>Facts about the distance-decay normalizer\<close>

text \<open>The accumulation of a bin is the sum and the number of its valid pixels.\<close>

lemma accumulate_fold:
  "fold (\<lambda>(offset, j) (s, n).
       if valid_pixel mask2d (offset + j) j then (dadd s (mat_get data (offset + j) j), n + 1)
       else (s, n)) ps (s0, n0) =
   (foldl dadd s0 (map (\<lambda>(i, j). mat_get data i j)
        (filter (\<lambda>(i, j). valid_pixel mask2d i j) (map (\<lambda>(offset, j). (offset + j, j)) ps))),
    n0 + length (filter (\<lambda>(i, j). valid_pixel mask2d i j) (map (\<lambda>(offset, j). (offset + j, j)) ps)))"
  by (induction ps arbitrary: s0 n0) (auto split: prod.splits)

lemma band_pixels:
  "map (\<lambda>(offset, j). (offset + j, j)) (band N lo hi) =
     concat (map (\<lambda>d. map (\<lambda>i. (i + d, i)) [0..<N - d]) [lo..<hi])"
  by (simp add: band_def map_concat comp_def add.commute)

lemma accumulate_eq:
  "accumulate data mask2d N lo hi = (bin_sum data mask2d N lo hi, bin_count mask2d N lo hi)"
  unfolding accumulate_def accumulate_fold bin_sum_def bin_count_def bin_pixels_def band_pixels dsum_def
  by simp

text \<open>The cells that the division of a bin rewrites.\<close>

lemma in_band: "(d, j) \<in> set (band N lo hi) \<longleftrightarrow> lo \<le> d \<and> d < hi \<and> j < N - d"
  by (force simp: band_def)

lemma distinct_concat_map:
  assumes "distinct xs" "\<And>x. x \<in> set xs \<Longrightarrow> distinct (f x)"
    and "\<And>x y. x \<in> set xs \<Longrightarrow> y \<in> set xs \<Longrightarrow> x \<noteq> y \<Longrightarrow> set (f x) \<inter> set (f y) = {}"
  shows "distinct (concat (map f xs))"
  using assms by (induction xs) auto

lemma distinct_band: "distinct (band N lo hi)"
  unfolding band_def
  by (rule distinct_concat_map) (auto simp: distinct_map inj_on_def)

lemma distinct_bin_cells: "distinct (bin_cells mask2d N lo hi)"
  unfolding bin_cells_def
proof (rule distinct_concat_map)
  show "distinct (band N lo hi)" by (rule distinct_band)
  show "distinct (case x of (offset, j) \<Rightarrow>
      if valid_pixel mask2d (offset + j) j
      then (offset + j, j) # (if 0 < offset then [(j, offset + j)] else []) else [])" for x
    by (cases x) auto
  fix x y :: "nat \<times> nat" assume "x \<noteq> y"
  then show "set (case x of (offset, j) \<Rightarrow>
        if valid_pixel mask2d (offset + j) j
        then (offset + j, j) # (if 0 < offset then [(j, offset + j)] else []) else []) \<inter>
      set (case y of (offset, j) \<Rightarrow>
        if valid_pixel mask2d (offset + j) j
        then (offset + j, j) # (if 0 < offset then [(j, offset + j)] else []) else []) = {}"
    by (cases x; cases y) (auto split: if_splits)
qed

lemma in_bin_cells:
  "(i, j) \<in> set (bin_cells mask2d N lo hi) \<longleftrightarrow>
     (j \<le> i \<and> lo \<le> i - j \<and> i - j < hi \<and> i < N \<and> valid_pixel mask2d i j) \<or>
     (i < j \<and> lo \<le> j - i \<and> j - i < hi \<and> j < N \<and> valid_pixel mask2d j i)"
  (is "?L \<longleftrightarrow> ?R")
proof
  assume ?L
  then obtain d k where dk: "(d, k) \<in> set (band N lo hi)" "valid_pixel mask2d (d + k) k"
    "(i, j) = (d + k, k) \<or> (0 < d \<and> (i, j) = (k, d + k))"
    by (auto simp: bin_cells_def split: if_splits)
  then have b: "lo \<le> d" "d < hi" "k < N - d" by (simp_all add: in_band)
  from dk(3) show ?R
  proof
    assume "(i, j) = (d + k, k)"
    then have "i = d + k" "j = k" by simp_all
    then show ?R using b dk(2) by simp
  next
    assume "0 < d \<and> (i, j) = (k, d + k)"
    then have "i = k" "j = d + k" "0 < d" by simp_all
    then show ?R using b dk(2) by simp
  qed
next
  assume ?R
  then show ?L
  proof
    assume a: "j \<le> i \<and> lo \<le> i - j \<and> i - j < hi \<and> i < N \<and> valid_pixel mask2d i j"
    then have "(i - j, j) \<in> set (band N lo hi)" by (auto simp: in_band)
    moreover have "(i, j) \<in> set (case (i - j, j) of (offset, j) \<Rightarrow>
        if valid_pixel mask2d (offset + j) j
        then (offset + j, j) # (if 0 < offset then [(j, offset + j)] else []) else [])"
      using a by simp
    ultimately show ?L unfolding bin_cells_def set_concat set_map by blast
  next
    assume a: "i < j \<and> lo \<le> j - i \<and> j - i < hi \<and> j < N \<and> valid_pixel mask2d j i"
    then have "(j - i, i) \<in> set (band N lo hi)" by (auto simp: in_band)
    moreover have "(i, j) \<in> set (case (j - i, i) of (offset, j) \<Rightarrow>
        if valid_pixel mask2d (offset + j) j
        then (offset + j, j) # (if 0 < offset then [(j, offset + j)] else []) else [])"
      using a by simp
    ultimately show ?L unfolding bin_cells_def set_concat set_map by blast
  qed
qed


lemma square_divide_bin: "square N data \<Longrightarrow> square N (divide_bin data mask2d N lo hi m)"
  by (simp add: divide_bin_def cell_loop_square)

lemma mat_get_divide_bin:
  assumes "square N data" "i < N" "j < N"
  shows "mat_get (divide_bin data mask2d N lo hi m) i j =
     (if (i, j) \<in> set (bin_cells mask2d N lo hi) then ddiv (mat_get data i j) m
      else mat_get data i j)"
  unfolding divide_bin_def
  using assms
  by (intro cell_loop_get) (auto simp: distinct_bin_cells in_bin_cells)

lemma in_bin_pixels:
  "(i, j) \<in> set (bin_pixels mask2d N lo hi) \<longleftrightarrow>
     j \<le> i \<and> lo \<le> i - j \<and> i - j < hi \<and> i < N \<and> valid_pixel mask2d i j"
proof -
  have "(i, j) \<in> set (concat (map (\<lambda>d. map (\<lambda>i. (i + d, i)) [0..<N - d]) [lo..<hi])) \<longleftrightarrow>
      j \<le> i \<and> lo \<le> i - j \<and> i - j < hi \<and> i < N"
    (is "?L \<longleftrightarrow> ?R")
  proof
    assume ?L
    then obtain d where "lo \<le> d" "d < hi" "j < N - d" "i = j + d" by auto
    then show ?R by simp
  next
    assume r: ?R
    have "(i, j) \<in> (\<Union>d\<in>set [lo..<hi]. set (map (\<lambda>k. (k + d, k)) [0..<N - d]))"
    proof (rule UN_I [where a = "i - j"])
      show "i - j \<in> set [lo..<hi]" using r by simp
      show "(i, j) \<in> set (map (\<lambda>k. (k + (i - j), k)) [0..<N - (i - j)])"
        using r by (auto simp: image_iff)
    qed
    then show ?L by simp
  qed
  then show ?thesis by (simp add: bin_pixels_def)
qed

lemma bin_cells_count:
  assumes "(i, j) \<in> set (bin_cells mask2d N lo hi)"
  shows "0 < bin_count mask2d N lo hi"
proof -
  from assms have "(i, j) \<in> set (bin_pixels mask2d N lo hi) \<or> (j, i) \<in> set (bin_pixels mask2d N lo hi)"
    by (auto simp: in_bin_cells in_bin_pixels)
  then have "bin_pixels mask2d N lo hi \<noteq> []" by auto
  then show ?thesis by (simp add: bin_count_def)
qed

lemma oe_bin_step:
  assumes "square N D"
  shows "\<exists>D1. oe_bin mask2d N (a, lo, hi) (D, na, sa) =
        (D1, na[a := bin_count mask2d N lo hi], sa[a := bin_sum D mask2d N lo hi]) \<and>
      square N D1 \<and>
      (\<forall>i<N. \<forall>j<N. mat_get D1 i j =
        (if (i, j) \<in> set (bin_cells mask2d N lo hi) \<and> bin_mean D mask2d N lo hi \<noteq> Fin 0
         then ddiv (mat_get D i j) (bin_mean D mask2d N lo hi) else mat_get D i j))"
proof (cases "bin_count mask2d N lo hi = 0 \<or> bin_mean D mask2d N lo hi = Fin 0")
  case True
  then have "oe_bin mask2d N (a, lo, hi) (D, na, sa) =
      (D, na[a := bin_count mask2d N lo hi], sa[a := bin_sum D mask2d N lo hi])"
    by (auto simp: oe_bin_def accumulate_eq Let_def bin_mean_def)
  moreover have "(i, j) \<notin> set (bin_cells mask2d N lo hi) \<or> bin_mean D mask2d N lo hi = Fin 0" for i j
    using True bin_cells_count [of i j mask2d N lo hi] by auto
  ultimately show ?thesis using assms by auto
next
  case False
  then have "oe_bin mask2d N (a, lo, hi) (D, na, sa) =
      (divide_bin D mask2d N lo hi (bin_mean D mask2d N lo hi),
       na[a := bin_count mask2d N lo hi], sa[a := bin_sum D mask2d N lo hi])"
    by (auto simp: oe_bin_def accumulate_eq Let_def bin_mean_def)
  then show ?thesis
    using assms False by (auto simp: square_divide_bin mat_get_divide_bin)
qed

lemma in_bin_cells_offset:
  "i < N \<Longrightarrow> j < N \<Longrightarrow>
     (i, j) \<in> set (bin_cells mask2d N lo hi) \<longleftrightarrow>
       in_bin lo hi i j \<and> valid_pixel mask2d (max i j) (min i j)"
  by (auto simp: in_bin_cells in_bin_def pixel_offset_def max_def min_def)

lemma oe_bin_pixel:
  assumes "square N D"
  shows "\<exists>D1. oe_bin mask2d N (a, lo, hi) (D, na, sa) =
        (D1, na[a := bin_count mask2d N lo hi], sa[a := bin_sum D mask2d N lo hi]) \<and>
      square N D1 \<and>
      (\<forall>i<N. \<forall>j<N. mat_get D1 i j =
        (if in_bin lo hi i j then normalized_pixel D mask2d N lo hi i j else mat_get D i j))"
proof -
  from oe_bin_step [OF assms, of mask2d a lo hi na sa]
  obtain D1 where 1: "oe_bin mask2d N (a, lo, hi) (D, na, sa) =
        (D1, na[a := bin_count mask2d N lo hi], sa[a := bin_sum D mask2d N lo hi])"
    and 2: "square N D1"
    and 3: "\<And>i j. i < N \<Longrightarrow> j < N \<Longrightarrow> mat_get D1 i j =
        (if (i, j) \<in> set (bin_cells mask2d N lo hi) \<and> bin_mean D mask2d N lo hi \<noteq> Fin 0
         then ddiv (mat_get D i j) (bin_mean D mask2d N lo hi) else mat_get D i j)"
    by blast
  have "mat_get D1 i j =
      (if in_bin lo hi i j then normalized_pixel D mask2d N lo hi i j else mat_get D i j)"
    if "i < N" "j < N" for i j
    using 3 [OF that] that by (simp add: in_bin_cells_offset normalized_pixel_def)
  with 1 2 show ?thesis by blast
qed

lemma bin_sum_cong:
  assumes "\<And>i j. i < N \<Longrightarrow> j < N \<Longrightarrow> in_bin lo hi i j \<Longrightarrow> mat_get A i j = mat_get B i j"
  shows "bin_sum A mask2d N lo hi = bin_sum B mask2d N lo hi"
proof -
  have "mat_get A i j = mat_get B i j" if "(i, j) \<in> set (bin_pixels mask2d N lo hi)" for i j
  proof -
    from that have "j \<le> i" "lo \<le> i - j" "i - j < hi" "i < N"
      by (simp_all add: in_bin_pixels)
    then show ?thesis
      by (intro assms) (simp_all add: in_bin_def pixel_offset_def)
  qed
  then have e: "map (\<lambda>(i, j). mat_get A i j) (bin_pixels mask2d N lo hi) =
      map (\<lambda>(i, j). mat_get B i j) (bin_pixels mask2d N lo hi)"
    by (intro map_cong) auto
  show ?thesis unfolding bin_sum_def e ..
qed

lemma bin_mean_cong:
  assumes "\<And>i j. i < N \<Longrightarrow> j < N \<Longrightarrow> in_bin lo hi i j \<Longrightarrow> mat_get A i j = mat_get B i j"
  shows "bin_mean A mask2d N lo hi = bin_mean B mask2d N lo hi"
  using bin_sum_cong [of N lo hi A B mask2d] assms by (simp add: bin_mean_def)

lemma normalized_pixel_cong:
  assumes "\<And>i j. i < N \<Longrightarrow> j < N \<Longrightarrow> in_bin lo hi i j \<Longrightarrow> mat_get A i j = mat_get B i j"
    and "i < N" "j < N" "in_bin lo hi i j"
  shows "normalized_pixel A mask2d N lo hi i j = normalized_pixel B mask2d N lo hi i j"
  using bin_mean_cong [of N lo hi A B mask2d] assms by (simp add: normalized_pixel_def)

text \<open>
  The loop over the bins, for bins that lie one before the other: the sums and the
  numbers are those of the matrix at the start of the loop, every pixel of a bin is
  normalized by the mean of its bin, and a pixel of no bin is left as it is.
\<close>

lemma oe_fold:
  assumes "square N D" "sorted_wrt bin_before bs"
    and "\<forall>b \<in> set bs. fst b < length na \<and> fst b < length sa"
  shows "\<exists>D' na' sa'. fold (oe_bin mask2d N) bs (D, na, sa) = (D', na', sa') \<and>
    square N D' \<and> length na' = length na \<and> length sa' = length sa \<and>
    (\<forall>a lo hi. (a, lo, hi) \<in> set bs \<longrightarrow>
       na' ! a = bin_count mask2d N lo hi \<and> sa' ! a = bin_sum D mask2d N lo hi) \<and>
    (\<forall>a. a \<notin> fst ` set bs \<longrightarrow> na' ! a = na ! a \<and> sa' ! a = sa ! a) \<and>
    (\<forall>i<N. \<forall>j<N.
       (\<forall>a lo hi. (a, lo, hi) \<in> set bs \<longrightarrow> in_bin lo hi i j \<longrightarrow>
          mat_get D' i j = normalized_pixel D mask2d N lo hi i j) \<and>
       ((\<forall>a lo hi. (a, lo, hi) \<in> set bs \<longrightarrow> \<not> in_bin lo hi i j) \<longrightarrow>
          mat_get D' i j = mat_get D i j))"
  using assms
proof (induction bs arbitrary: D na sa)
  case Nil
  then show ?case by simp
next
  case (Cons b bs)
  obtain a lo hi where b: "b = (a, lo, hi)" by (cases b) auto
  define na1 where "na1 = na[a := bin_count mask2d N lo hi]"
  define sa1 where "sa1 = sa[a := bin_sum D mask2d N lo hi]"
  from oe_bin_pixel [OF Cons.prems(1), of mask2d a lo hi na sa]
  obtain D1 where step: "oe_bin mask2d N (a, lo, hi) (D, na, sa) = (D1, na1, sa1)"
    and sq1: "square N D1"
    and px1: "\<And>i j. i < N \<Longrightarrow> j < N \<Longrightarrow> mat_get D1 i j =
        (if in_bin lo hi i j then normalized_pixel D mask2d N lo hi i j else mat_get D i j)"
    unfolding na1_def sa1_def by blast
  have a_len: "a < length na" "a < length sa"
    using Cons.prems(3) by (simp_all add: b)
  have later: "a \<noteq> a' \<and> hi \<le> lo'" if "(a', lo', hi') \<in> set bs" for a' lo' hi'
    using Cons.prems(2) that by (auto simp: b bin_before_def)
  have a_notin: "a \<notin> fst ` set bs"
    using later by force
  have idx1: "\<forall>b \<in> set bs. fst b < length na1 \<and> fst b < length sa1"
    using Cons.prems(3) by (simp add: na1_def sa1_def)
  have sorted1: "sorted_wrt bin_before bs"
    using Cons.prems(2) by simp
  from Cons.IH [OF sq1 sorted1 idx1]
  obtain D' na' sa' where fold1: "fold (oe_bin mask2d N) bs (D1, na1, sa1) = (D', na', sa')"
    and sq': "square N D'"
    and len': "length na' = length na1" "length sa' = length sa1"
    and arr': "\<And>a' lo' hi'. (a', lo', hi') \<in> set bs \<Longrightarrow>
        na' ! a' = bin_count mask2d N lo' hi' \<and> sa' ! a' = bin_sum D1 mask2d N lo' hi'"
    and keep': "\<And>a'. a' \<notin> fst ` set bs \<Longrightarrow> na' ! a' = na1 ! a' \<and> sa' ! a' = sa1 ! a'"
    and px': "\<And>i j a' lo' hi'. i < N \<Longrightarrow> j < N \<Longrightarrow> (a', lo', hi') \<in> set bs \<Longrightarrow>
        in_bin lo' hi' i j \<Longrightarrow> mat_get D' i j = normalized_pixel D1 mask2d N lo' hi' i j"
    and out': "\<And>i j. i < N \<Longrightarrow> j < N \<Longrightarrow>
        (\<forall>a' lo' hi'. (a', lo', hi') \<in> set bs \<longrightarrow> \<not> in_bin lo' hi' i j) \<Longrightarrow>
        mat_get D' i j = mat_get D1 i j"
    by blast
  have same: "mat_get D1 i j = mat_get D i j"
    if "i < N" "j < N" "in_bin lo' hi' i j" "(a', lo', hi') \<in> set bs" for i j a' lo' hi'
  proof -
    have "hi \<le> lo'" using later [OF that(4)] by simp
    then have "\<not> in_bin lo hi i j" using that(3) by (simp add: in_bin_def)
    then show ?thesis using px1 [OF that(1,2)] by simp
  qed
  have fold: "fold (oe_bin mask2d N) (b # bs) (D, na, sa) = (D', na', sa')"
    by (simp add: b step fold1)
  have lens: "length na' = length na" "length sa' = length sa"
    using len' by (simp_all add: na1_def sa1_def)
  have arr: "na' ! a' = bin_count mask2d N lo' hi' \<and> sa' ! a' = bin_sum D mask2d N lo' hi'"
    if "(a', lo', hi') \<in> set (b # bs)" for a' lo' hi'
  proof (cases "(a', lo', hi') = (a, lo, hi)")
    case True
    then show ?thesis
      using keep' [OF a_notin] a_len by (simp add: na1_def sa1_def)
  next
    case False
    then have m: "(a', lo', hi') \<in> set bs" using that by (auto simp: b)
    have "bin_sum D1 mask2d N lo' hi' = bin_sum D mask2d N lo' hi'"
      by (rule bin_sum_cong) (rule same [OF _ _ _ m])
    then show ?thesis using arr' [OF m] by simp
  qed
  have keep: "na' ! a' = na ! a' \<and> sa' ! a' = sa ! a'" if "a' \<notin> fst ` set (b # bs)" for a'
  proof -
    from that have "a' \<noteq> a" "a' \<notin> fst ` set bs" by (simp_all add: b)
    then show ?thesis using keep' [of a'] by (simp add: na1_def sa1_def)
  qed
  have px: "mat_get D' i j = normalized_pixel D mask2d N lo' hi' i j"
    if "i < N" "j < N" "(a', lo', hi') \<in> set (b # bs)" "in_bin lo' hi' i j" for i j a' lo' hi'
  proof (cases "(a', lo', hi') = (a, lo, hi)")
    case True
    have "\<not> in_bin lo'' hi'' i j" if "(a'', lo'', hi'') \<in> set bs" for a'' lo'' hi''
    proof -
      have "hi \<le> lo''" using later [OF that] by simp
      then show ?thesis using \<open>in_bin lo' hi' i j\<close> True by (simp add: in_bin_def)
    qed
    then have "mat_get D' i j = mat_get D1 i j"
      using out' [OF that(1,2)] by blast
    then show ?thesis using px1 [OF that(1,2)] that(4) True by simp
  next
    case False
    then have m: "(a', lo', hi') \<in> set bs" using that(3) by (auto simp: b)
    have "normalized_pixel D1 mask2d N lo' hi' i j = normalized_pixel D mask2d N lo' hi' i j"
      by (rule normalized_pixel_cong [OF same [OF _ _ _ m] that(1,2,4)])
    then show ?thesis using px' [OF that(1,2) m that(4)] by simp
  qed
  have out: "mat_get D' i j = mat_get D i j"
    if "i < N" "j < N" "\<forall>a' lo' hi'. (a', lo', hi') \<in> set (b # bs) \<longrightarrow> \<not> in_bin lo' hi' i j"
    for i j
  proof -
    from that(3) have 1: "\<not> in_bin lo hi i j"
      and 2: "\<forall>a' lo' hi'. (a', lo', hi') \<in> set bs \<longrightarrow> \<not> in_bin lo' hi' i j"
      by (simp_all add: b)
    show ?thesis using out' [OF that(1,2) 2] px1 [OF that(1,2)] 1 by simp
  qed
  show ?case
    using fold sq' lens arr keep px out by blast
qed

text \<open>The bins of increasing edges.\<close>

lemma length_bins_of: "length (bins_of (0 # edges)) = length edges"
  by (simp add: bins_of_def)

lemma bins_of_nth:
  assumes "b < length edges"
  shows "bins_of (0 # edges) ! b = (b, (0 # edges) ! b, edges ! b)"
proof -
  have "butlast (0 # edges) ! b = (0 # edges) ! b"
    using assms by (intro nth_butlast) auto
  then show ?thesis
    using assms by (simp add: bins_of_def del: butlast.simps)
qed

lemma in_bins_of:
  "(a, lo, hi) \<in> set (bins_of (0 # edges)) \<longleftrightarrow>
     a < length edges \<and> lo = (0 # edges) ! a \<and> hi = edges ! a"
proof
  assume "(a, lo, hi) \<in> set (bins_of (0 # edges))"
  then obtain b where "b < length edges" "bins_of (0 # edges) ! b = (a, lo, hi)"
    by (auto simp: in_set_conv_nth length_bins_of)
  then show "a < length edges \<and> lo = (0 # edges) ! a \<and> hi = edges ! a"
    by (auto simp: bins_of_nth)
next
  assume r: "a < length edges \<and> lo = (0 # edges) ! a \<and> hi = edges ! a"
  then have "bins_of (0 # edges) ! a = (a, lo, hi)" by (simp add: bins_of_nth)
  then show "(a, lo, hi) \<in> set (bins_of (0 # edges))"
    using r by (metis length_bins_of nth_mem)
qed

lemma sorted_bins_of:
  assumes "sorted_wrt (<) (0 # edges)"
  shows "sorted_wrt bin_before (bins_of (0 # edges))"
proof -
  have "bin_before (bins_of (0 # edges) ! p) (bins_of (0 # edges) ! q)"
    if "p < q" "q < length edges" for p q
  proof -
    have "(0 # edges) ! Suc p \<le> (0 # edges) ! q"
    proof (cases "Suc p = q")
      case True
      then show ?thesis by simp
    next
      case False
      then have "Suc p < q" using that by simp
      then have "(0 # edges) ! Suc p < (0 # edges) ! q"
        using assms that by (intro sorted_wrt_nth_less) simp_all
      then show ?thesis by simp
    qed
    then show ?thesis
      using that by (simp add: bins_of_nth bin_before_def)
  qed
  then show ?thesis
    by (simp add: sorted_wrt_iff_nth_less length_bins_of)
qed

text \<open>
  The result of the normalizer on an \<open>N\<close> by \<open>N\<close> matrix, for increasing edges: no
  error; the sum and the number of valid pixels of every bin, taken from the input
  matrix; every pixel of a bin normalized by the mean of its bin; every other pixel as
  in the input.
\<close>

lemma oe_result:
  assumes "square N M" "expand_mask m = Inr mask2d" "sorted_wrt (<) (0 # edges)"
  shows "\<exists>oe sum_arr n_arr.
    oe_with_edges M m edges = Inr (oe, 0 # edges, sum_arr, n_arr) \<and>
    square N oe \<and> length sum_arr = length edges \<and> length n_arr = length edges \<and>
    (\<forall>b<length edges.
       n_arr ! b = bin_count mask2d N ((0 # edges) ! b) (edges ! b) \<and>
       sum_arr ! b = bin_sum M mask2d N ((0 # edges) ! b) (edges ! b)) \<and>
    (\<forall>i<N. \<forall>j<N.
       (\<forall>b<length edges. in_bin ((0 # edges) ! b) (edges ! b) i j \<longrightarrow>
          mat_get oe i j = normalized_pixel M mask2d N ((0 # edges) ! b) (edges ! b) i j) \<and>
       ((\<forall>b<length edges. \<not> in_bin ((0 # edges) ! b) (edges ! b) i j) \<longrightarrow>
          mat_get oe i j = mat_get M i j))"
proof -
  have len: "length M = N" using assms(1) by (simp add: square_def)
  let ?na = "replicate (length edges) (0::nat)"
  let ?sa = "replicate (length edges) (Fin 0)"
  have idx: "\<forall>b \<in> set (bins_of (0 # edges)). fst b < length ?na \<and> fst b < length ?sa"
    by (auto simp: in_bins_of)
  from oe_fold [OF assms(1) sorted_bins_of [OF assms(3)] idx, of mask2d]
  obtain oe n_arr sum_arr where
    fold: "fold (oe_bin mask2d N) (bins_of (0 # edges)) (M, ?na, ?sa) = (oe, n_arr, sum_arr)"
    and sq: "square N oe"
    and lens: "length n_arr = length edges" "length sum_arr = length edges"
    and arr: "\<And>a lo hi. (a, lo, hi) \<in> set (bins_of (0 # edges)) \<Longrightarrow>
        n_arr ! a = bin_count mask2d N lo hi \<and> sum_arr ! a = bin_sum M mask2d N lo hi"
    and px: "\<And>i j a lo hi. i < N \<Longrightarrow> j < N \<Longrightarrow> (a, lo, hi) \<in> set (bins_of (0 # edges)) \<Longrightarrow>
        in_bin lo hi i j \<Longrightarrow> mat_get oe i j = normalized_pixel M mask2d N lo hi i j"
    and outside: "\<And>i j. i < N \<Longrightarrow> j < N \<Longrightarrow>
        (\<forall>a lo hi. (a, lo, hi) \<in> set (bins_of (0 # edges)) \<longrightarrow> \<not> in_bin lo hi i j) \<Longrightarrow>
        mat_get oe i j = mat_get M i j"
    by (simp only: length_replicate) blast
  have res: "oe_with_edges M m edges = Inr (oe, 0 # edges, sum_arr, n_arr)"
    by (simp add: oe_with_edges_def Let_def assms(2) len fold)
  have 1: "n_arr ! b = bin_count mask2d N ((0 # edges) ! b) (edges ! b) \<and>
       sum_arr ! b = bin_sum M mask2d N ((0 # edges) ! b) (edges ! b)" if "b < length edges" for b
    using that by (intro arr) (simp add: in_bins_of)
  have 2: "mat_get oe i j = normalized_pixel M mask2d N ((0 # edges) ! b) (edges ! b) i j"
    if "i < N" "j < N" "b < length edges" "in_bin ((0 # edges) ! b) (edges ! b) i j" for i j b
    using that by (intro px [where a = b]) (simp_all add: in_bins_of)
  have 3: "mat_get oe i j = mat_get M i j"
    if "i < N" "j < N" "\<forall>b<length edges. \<not> in_bin ((0 # edges) ! b) (edges ! b) i j" for i j
    using that by (intro outside) (auto simp: in_bins_of)
  show ?thesis
    using res sq lens 1 2 3 by blast
qed


text \<open>The mask is read in the lower triangle only.\<close>

lemma has_mask_square: "square N mask2d \<Longrightarrow> has_mask mask2d \<longleftrightarrow> 0 < N"
proof (cases mask2d)
  case Nil
  then show "square N mask2d \<Longrightarrow> has_mask mask2d \<longleftrightarrow> 0 < N"
    by (auto simp: square_def has_mask_def)
next
  case (Cons row rows)
  then show "square N mask2d \<Longrightarrow> has_mask mask2d \<longleftrightarrow> 0 < N"
    by (auto simp: square_def has_mask_def)
qed

lemma valid_pixel_lower_cong:
  assumes "has_mask A = has_mask B" "\<forall>i<N. \<forall>j\<le>i. mat_get A i j = mat_get B i j"
    and "i < N" "j \<le> i"
  shows "valid_pixel A i j = valid_pixel B i j"
  using assms by (simp add: valid_pixel_def)

lemma bin_pixels_lower_cong:
  assumes "has_mask A = has_mask B" "\<forall>i<N. \<forall>j\<le>i. mat_get A i j = mat_get B i j"
  shows "bin_pixels A N lo hi = bin_pixels B N lo hi"
  unfolding bin_pixels_def
proof (rule filter_cong [OF refl])
  fix p assume "p \<in> set (concat (map (\<lambda>d. map (\<lambda>i. (i + d, i)) [0..<N - d]) [lo..<hi]))"
  then obtain d i where "p = (i + d, i)" "i < N - d" by auto
  then show "(case p of (i, j) \<Rightarrow> valid_pixel A i j) = (case p of (i, j) \<Rightarrow> valid_pixel B i j)"
    using valid_pixel_lower_cong [OF assms, of "i + d" i] by simp
qed

lemma bin_cells_lower_cong:
  assumes "has_mask A = has_mask B" "\<forall>i<N. \<forall>j\<le>i. mat_get A i j = mat_get B i j"
  shows "bin_cells A N lo hi = bin_cells B N lo hi"
proof -
  have "(case p of (offset, j) \<Rightarrow>
          if valid_pixel A (offset + j) j
          then (offset + j, j) # (if 0 < offset then [(j, offset + j)] else []) else []) =
        (case p of (offset, j) \<Rightarrow>
          if valid_pixel B (offset + j) j
          then (offset + j, j) # (if 0 < offset then [(j, offset + j)] else []) else [])"
    if "p \<in> set (band N lo hi)" for p
  proof -
    obtain d k where p: "p = (d, k)" by (cases p)
    with that have "k < N - d" by (simp add: in_band)
    then show ?thesis
      using valid_pixel_lower_cong [OF assms, of "d + k" k] by (simp add: p)
  qed
  then show ?thesis
    unfolding bin_cells_def by (intro arg_cong [where f = concat] map_cong) auto
qed

lemma oe_bin_lower_cong:
  assumes "has_mask A = has_mask B" "\<forall>i<N. \<forall>j\<le>i. mat_get A i j = mat_get B i j"
  shows "oe_bin A N = oe_bin B N"
proof (intro ext)
  fix b :: "nat \<times> nat \<times> nat" and st :: "matrix \<times> nat list \<times> vector"
  obtain a lo hi where b: "b = (a, lo, hi)" by (cases b) auto
  obtain D na sa where st: "st = (D, na, sa)" by (cases st) auto
  have e1: "bin_sum D A N lo hi = bin_sum D B N lo hi" "bin_count A N lo hi = bin_count B N lo hi"
    by (simp_all add: bin_sum_def bin_count_def bin_pixels_lower_cong [OF assms])
  have e2: "divide_bin D A N lo hi m = divide_bin D B N lo hi m" for m
    by (simp add: divide_bin_def bin_cells_lower_cong [OF assms])
  show "oe_bin A N b st = oe_bin B N b st"
    by (simp add: oe_bin_def b st accumulate_eq Let_def e1 e2 cong: if_cong)
qed

lemma oe_with_edges_lower_cong:
  assumes "expand_mask m = Inr A" "expand_mask m' = Inr B" "length M = N"
    and "has_mask A = has_mask B" "\<forall>i<N. \<forall>j\<le>i. mat_get A i j = mat_get B i j"
  shows "oe_with_edges M m' edges = oe_with_edges M m edges"
  using assms(1-3) oe_bin_lower_cong [OF assms(4,5)]
  by (simp add: oe_with_edges_def)

lemma distinct_bin_pixels: "distinct (bin_pixels mask2d N lo hi)"
proof -
  have "distinct (concat (map (\<lambda>d. map (\<lambda>i. (i + d, i)) [0..<N - d]) [lo..<hi]))"
    by (rule distinct_concat_map) (auto simp: distinct_map inj_on_def)
  then show ?thesis by (simp add: bin_pixels_def)
qed

section \<open>The edges that \<open>logbins\<close> returns\<close>

lemma logbins_returns:
  assumes "logbins np lo hi ratio N False = Inr es"
  shows "es \<noteq> [] \<and> hd es = lo \<and> last es = hi \<and> sorted_wrt (<) es"
proof -
  from assms obtain data10 where
    es: "es = sort (remdups (map (rint_int np) data10))"
    and ne: "es \<noteq> []" and h: "hd es = lo" and l: "last es = hi"
    by (auto simp: logbins_def Let_def split: if_splits sum.splits)
  have "sorted es" "distinct es" unfolding es by simp_all
  then have "sorted_wrt (<) es" by (simp add: strict_sorted_iff)
  with ne h l show ?thesis by simp
qed

lemma logbins_1_edges:
  assumes "logbins np 1 hi ratio N False = Inr es"
  shows "sorted_wrt (<) (0 # map nat es)" "map nat es \<noteq> []" "last (map nat es) = nat hi"
    "hd (map nat es) = 1"
proof -
  from logbins_returns [OF assms]
  have ne: "es \<noteq> []" and h: "hd es = 1" and l: "last es = hi" and s: "sorted_wrt (<) es"
    by simp_all
  have ge: "\<forall>e \<in> set es. 1 \<le> e"
    using ne h s by (cases es) auto
  have "sorted_wrt (<) (map nat es)"
    using s ge by (induction es) auto
  moreover have "\<forall>e \<in> set (map nat es). 0 < e" using ge by auto
  ultimately show "sorted_wrt (<) (0 # map nat es)" by simp
  show "map nat es \<noteq> []" using ne by simp
  show "last (map nat es) = nat hi" using ne l by (simp add: last_map)
  show "hd (map nat es) = 1" using ne h by (simp add: hd_map)
qed

lemma observed_over_expected_edges:
  assumes "expand_mask m = Inr mask2d"
    and "logbins np 1 (int (length M)) ratio (Fin 0) False = Inr es"
  shows "observed_over_expected np M m ratio = oe_with_edges M m (map nat es)"
  using assms by (simp add: observed_over_expected_def)

lemma rint_of_int [simp]: "rint (of_int n) = n"
  by (simp add: rint_def)


lemma real_linspace_2: "real_linspace (Fin 0) (Fin b) 2 = [Fin 0, Fin b]"
proof -
  have u: "[0..<2] = [0, Suc 0]" by (simp add: upt_rec)
  show ?thesis by (simp add: real_linspace_def u dsub_def)
qed

lemma real_logspace_2:
  assumes "0 < (b :: real)" "trunc n = 2"
  shows "real_logspace (real_log 10 (Fin 1)) (real_log 10 (Fin b)) (Fin n) = Inr [Fin 1, Fin b]"
proof -
  have p: "10 powr (ln b / ln 10) = b"
    using powr_log_cancel [of 10 b] assms by (simp add: log_def)
  show ?thesis
    using assms by (simp add: real_logspace_def real_log_def real_linspace_2 real_pow10_def p)
qed

text \<open>
  A ratio \<open>r\<close> with \<open>r^2 \<le> hi < r^3\<close>: \<open>log(hi) / log(r)\<close> is truncated to two
  points, 1 and \<open>hi\<close>.
\<close>

lemma logbins_two_points:
  assumes "1 < hi" "1 < r" "r ^ 2 \<le> real_of_int hi" "real_of_int hi < r ^ 3"
  shows "logbins real_numpy 1 hi (Fin r) (Fin 0) False = Inr [1, hi]"
proof -
  have r: "0 < ln r" using assms(2) by simp
  have "ln (r ^ 2) \<le> ln (real_of_int hi)" "ln (real_of_int hi) < ln (r ^ 3)"
    using assms by simp_all
  then have "2 * ln r \<le> ln (real_of_int hi)" "ln (real_of_int hi) < 3 * ln r"
    using assms(2) by (simp_all add: ln_realpow)
  then have "2 \<le> ln (real_of_int hi) / ln r" "ln (real_of_int hi) / ln r < 3"
    using r by (simp_all add: pos_le_divide_eq pos_divide_less_eq)
  then have t: "trunc (ln (real_of_int hi) / ln r) = 2"
    unfolding trunc_def by (simp add: floor_eq_iff)
  have n: "ddiv (real_log (exp 1) (Fin (real_of_int hi / real_of_int 1))) (real_log (exp 1) (Fin r)) =
      Fin (ln (real_of_int hi) / ln r)"
    using assms(1,2) r by (simp add: real_log_def)
  have ls: "real_logspace (real_log 10 (Fin (real_of_int 1))) (real_log 10 (Fin (real_of_int hi)))
      (Fin (ln (real_of_int hi) / ln r)) = Inr [Fin 1, Fin (real_of_int hi)]"
    using real_logspace_2 [of "real_of_int hi", OF _ t] assms(1) by simp
  have one: "rint 1 = 1" using rint_of_int [of 1] by simp
  have r0: "Fin r \<noteq> Fin 0" using assms(2) by simp
  show ?thesis
    unfolding logbins_def using assms(1) r0 n ls
    by (simp add: real_numpy_def rint_int_def Let_def one)
qed


lemma logbins_2_ratio: "logbins real_numpy 1 2 (Fin (7 / 5)) (Fin 0) False = Inr [1, 2]"
  by (rule logbins_two_points) (simp_all add: power2_eq_square power3_eq_cube)

section \<open>A distance bin with no valid pixel or a zero mean\<close>





section \<open>The normalizer reads the lower triangle\<close>

lemma oe_with_edges_lower_triangle:
  assumes "square N M" "expand_mask m = Inr mask2d" "square N mask2d" "0 < N"
    and "sorted_wrt (<) (0 # edges)" "b < length edges"
  shows "\<exists>oe sum_arr n_arr.
    oe_with_edges M m edges = Inr (oe, 0 # edges, sum_arr, n_arr) \<and>
    sum_arr ! b =
      dsum (map (\<lambda>(i, j). mat_get M i j) (bin_pixels mask2d N ((0 # edges) ! b) (edges ! b))) \<and>
    n_arr ! b = length (bin_pixels mask2d N ((0 # edges) ! b) (edges ! b)) \<and>
    distinct (bin_pixels mask2d N ((0 # edges) ! b) (edges ! b)) \<and>
    (\<forall>i j. (i, j) \<in> set (bin_pixels mask2d N ((0 # edges) ! b) (edges ! b)) \<longleftrightarrow>
       j \<le> i \<and> (0 # edges) ! b \<le> i - j \<and> i - j < edges ! b \<and> i < N \<and> mat_get mask2d i j) \<and>
    (bin_mean M mask2d N ((0 # edges) ! b) (edges ! b) \<noteq> Fin 0 \<longrightarrow>
       (\<forall>d i. (0 # edges) ! b \<le> d \<and> d < edges ! b \<and> i + d < N \<longrightarrow>
          mat_get oe (i + d) i =
            (if mat_get mask2d (i + d) i
             then ddiv (mat_get M (i + d) i) (bin_mean M mask2d N ((0 # edges) ! b) (edges ! b))
             else mat_get M (i + d) i) \<and>
          mat_get oe i (i + d) =
            (if mat_get mask2d (i + d) i
             then ddiv (mat_get M i (i + d)) (bin_mean M mask2d N ((0 # edges) ! b) (edges ! b))
             else mat_get M i (i + d)))) \<and>
    (\<forall>mask'. square N mask' \<and> (\<forall>i<N. \<forall>j\<le>i. mat_get mask' i j = mat_get mask2d i j) \<longrightarrow>
       oe_with_edges M (Mask2D mask') edges = oe_with_edges M m edges)"
proof -
  let ?lo = "(0 # edges) ! b" and ?hi = "edges ! b"
  let ?mean = "bin_mean M mask2d N ?lo ?hi"
  have hm: "has_mask mask2d" using assms(3,4) by (simp add: has_mask_square)
  then have valid: "valid_pixel mask2d i j = mat_get mask2d i j" for i j
    by (simp add: valid_pixel_def)
  from oe_result [OF assms(1,2,5)]
  obtain oe sum_arr n_arr where
    res: "oe_with_edges M m edges = Inr (oe, 0 # edges, sum_arr, n_arr)"
    and arr: "\<And>b. b < length edges \<Longrightarrow>
       n_arr ! b = bin_count mask2d N ((0 # edges) ! b) (edges ! b) \<and>
       sum_arr ! b = bin_sum M mask2d N ((0 # edges) ! b) (edges ! b)"
    and px: "\<And>i j b. i < N \<Longrightarrow> j < N \<Longrightarrow> b < length edges \<Longrightarrow>
       in_bin ((0 # edges) ! b) (edges ! b) i j \<Longrightarrow>
       mat_get oe i j = normalized_pixel M mask2d N ((0 # edges) ! b) (edges ! b) i j"
    by blast
  have 1: "sum_arr ! b = dsum (map (\<lambda>(i, j). mat_get M i j) (bin_pixels mask2d N ?lo ?hi))"
    "n_arr ! b = length (bin_pixels mask2d N ?lo ?hi)"
    using arr [OF assms(6)] by (simp_all add: bin_sum_def bin_count_def)
  have 2: "(i, j) \<in> set (bin_pixels mask2d N ?lo ?hi) \<longleftrightarrow>
       j \<le> i \<and> ?lo \<le> i - j \<and> i - j < ?hi \<and> i < N \<and> mat_get mask2d i j" for i j
    by (simp add: in_bin_pixels valid)
  have 3: "mat_get oe (i + d) i =
        (if mat_get mask2d (i + d) i then ddiv (mat_get M (i + d) i) ?mean else mat_get M (i + d) i) \<and>
      mat_get oe i (i + d) =
        (if mat_get mask2d (i + d) i then ddiv (mat_get M i (i + d)) ?mean else mat_get M i (i + d))"
    if "?mean \<noteq> Fin 0" "?lo \<le> d" "d < ?hi" "i + d < N" for d i
  proof -
    have b1: "in_bin ?lo ?hi (i + d) i" "in_bin ?lo ?hi i (i + d)"
      using that(2,3) by (simp_all add: in_bin_def pixel_offset_def)
    have b2: "i < N" using that(4) by simp
    have "mat_get oe (i + d) i = normalized_pixel M mask2d N ?lo ?hi (i + d) i"
      "mat_get oe i (i + d) = normalized_pixel M mask2d N ?lo ?hi i (i + d)"
      using px [OF that(4) b2 assms(6) b1(1)] px [OF b2 that(4) assms(6) b1(2)] by simp_all
    then show ?thesis
      using that(1) by (simp add: normalized_pixel_def valid max_def min_def)
  qed
  have 4: "oe_with_edges M (Mask2D mask') edges = oe_with_edges M m edges"
    if "square N mask'" "\<forall>i<N. \<forall>j\<le>i. mat_get mask' i j = mat_get mask2d i j" for mask'
  proof -
    have "has_mask mask2d = has_mask mask'"
      using that(1) assms(3) by (simp add: has_mask_square)
    moreover have "\<forall>i<N. \<forall>j\<le>i. mat_get mask2d i j = mat_get mask' i j"
      using that(2) by simp
    moreover have "expand_mask (Mask2D mask') = Inr mask'" by (simp add: expand_mask_def)
    moreover have "length M = N" using assms(1) by (simp add: square_def)
    ultimately show ?thesis
      using assms(2) by (intro oe_with_edges_lower_cong)
  qed
  show ?thesis
    using res 1 distinct_bin_pixels [of mask2d N ?lo ?hi] 2 3 4 by blast
qed

text \<open>
  Claim C10. For an \<open>N\<close> by \<open>N\<close> matrix, a mask of \<open>N\<close> by \<open>N\<close> pixels and
  the bin edges that \<open>logbins\<close> returns: the sum and the number of valid pixels returned for a bin are
  taken over the pixels \<open>M[i+d, i]\<close> of the lower triangle with \<open>d\<close> in the bin and
  \<open>mask2d[i+d, i]\<close> true, each pair once (the list of these pixels has no
  repetition); when the mean of the bin is not zero, \<open>M[i+d, i]\<close> and its mirror
  \<open>M[i, i+d]\<close> are both divided by the mean if \<open>mask2d[i+d, i]\<close> is true and both
  left as they are if it is false; and the entries of the mask above the diagonal are
  never read: a mask that agrees with \<open>mask2d\<close> on and below the diagonal gives the
  same result.
\<close>

theorem oe_lower_triangle:
  assumes "square N M" "expand_mask m = Inr mask2d" "square N mask2d" "0 < N"
    and "logbins np 1 (int N) ratio (Fin 0) False = Inr es" "map nat es = edges"
    and "b < length edges"
  shows "\<exists>oe sum_arr n_arr.
    observed_over_expected np M m ratio = Inr (oe, 0 # edges, sum_arr, n_arr) \<and>
    sum_arr ! b =
      dsum (map (\<lambda>(i, j). mat_get M i j) (bin_pixels mask2d N ((0 # edges) ! b) (edges ! b))) \<and>
    n_arr ! b = length (bin_pixels mask2d N ((0 # edges) ! b) (edges ! b)) \<and>
    distinct (bin_pixels mask2d N ((0 # edges) ! b) (edges ! b)) \<and>
    (\<forall>i j. (i, j) \<in> set (bin_pixels mask2d N ((0 # edges) ! b) (edges ! b)) \<longleftrightarrow>
       j \<le> i \<and> (0 # edges) ! b \<le> i - j \<and> i - j < edges ! b \<and> i < N \<and> mat_get mask2d i j) \<and>
    (bin_mean M mask2d N ((0 # edges) ! b) (edges ! b) \<noteq> Fin 0 \<longrightarrow>
       (\<forall>d i. (0 # edges) ! b \<le> d \<and> d < edges ! b \<and> i + d < N \<longrightarrow>
          mat_get oe (i + d) i =
            (if mat_get mask2d (i + d) i
             then ddiv (mat_get M (i + d) i) (bin_mean M mask2d N ((0 # edges) ! b) (edges ! b))
             else mat_get M (i + d) i) \<and>
          mat_get oe i (i + d) =
            (if mat_get mask2d (i + d) i
             then ddiv (mat_get M i (i + d)) (bin_mean M mask2d N ((0 # edges) ! b) (edges ! b))
             else mat_get M i (i + d)))) \<and>
    (\<forall>mask'. square N mask' \<and> (\<forall>i<N. \<forall>j\<le>i. mat_get mask' i j = mat_get mask2d i j) \<longrightarrow>
       observed_over_expected np M (Mask2D mask') ratio = observed_over_expected np M m ratio)"
proof -
  have len: "length M = N" using assms(1) by (simp add: square_def)
  have s: "sorted_wrt (<) (0 # edges)"
    using logbins_1_edges(1) [OF assms(5)] assms(6) by simp
  have e: "observed_over_expected np M m' ratio = oe_with_edges M m' edges"
    if "expand_mask m' = Inr mask'" for m' mask'
    using observed_over_expected_edges [OF that, of np M ratio es] assms(5,6) len by simp
  have e1: "observed_over_expected np M m ratio = oe_with_edges M m edges"
    using e [OF assms(2)] .
  have e2: "observed_over_expected np M (Mask2D mask') ratio = oe_with_edges M (Mask2D mask') edges"
    for mask'
    by (rule e [of _ mask']) (simp add: expand_mask_def)
  show ?thesis
    using oe_with_edges_lower_triangle [OF assms(1,2,3,4) s assms(7)]
    unfolding e1 e2 .
qed

text \<open>
  A 2 by 2 matrix, the edges \<open>[1, 2]\<close> that \<open>logbins\<close> returns for the ratio 1.4, and
  the mask true at \<open>[1, 0]\<close> and false at \<open>[0, 1]\<close>: the bin
  \<open>[1, 2)\<close> has the one valid pixel \<open>M[1, 0] = 7\<close>, and both \<open>M[1, 0]\<close> and
  \<open>M[0, 1]\<close> are divided by 7.
\<close>

theorem oe_lower_triangle_witness:
  "square 2 [[Fin 1, Fin 5], [Fin 7, Fin 1]] \<and>
   expand_mask (Mask2D [[True, False], [True, True]]) = Inr [[True, False], [True, True]] \<and>
   square 2 [[True, False], [True, True]] \<and>
   logbins real_numpy 1 2 (Fin (7 / 5)) (Fin 0) False = Inr [1, 2] \<and>
   bin_mean [[Fin 1, Fin 5], [Fin 7, Fin 1]] [[True, False], [True, True]] 2 1 2 = Fin 7 \<and>
   (\<exists>oe sum_arr n_arr.
      observed_over_expected real_numpy [[Fin 1, Fin 5], [Fin 7, Fin 1]]
        (Mask2D [[True, False], [True, True]]) (Fin (7 / 5)) = Inr (oe, [0, 1, 2], sum_arr, n_arr) \<and>
      mat_get oe 1 0 = Fin 1 \<and> mat_get oe 0 1 = Fin (5 / 7) \<and>
      sum_arr ! 1 = Fin 7 \<and> n_arr ! 1 = 1)"
proof -
  have sq: "square 2 [[Fin 1, Fin 5], [Fin 7, Fin 1]]"
    by (simp add: square_def)
  have m: "expand_mask (Mask2D [[True, False], [True, True]]) = Inr [[True, False], [True, True]]"
    by (simp add: expand_mask_def)
  have sqm: "square 2 [[True, False], [True, True]]"
    by (simp add: square_def)
  have n: "(0::nat) < 2"
    by simp
  have lb: "logbins real_numpy 1 (int 2) (Fin (7 / 5)) (Fin 0) False = Inr [1, 2]"
    using logbins_2_ratio by simp
  have e: "map nat [1, 2 :: int] = [1, 2 :: nat]"
    by simp
  have b: "(1::nat) < length [1, 2 :: nat]"
    by simp
  have nth: "(0 # [1, 2 :: nat]) ! 1 = 1" "[1, 2 :: nat] ! 1 = 2"
    by simp_all
  have px: "bin_pixels [[True, False], [True, True]] 2 1 2 = [(1, 0)]"
    by code_simp
  have mean: "bin_mean [[Fin 1, Fin 5], [Fin 7, Fin 1]] [[True, False], [True, True]] 2 1 2 = Fin 7"
    by code_simp
  from oe_lower_triangle [OF sq m sqm n lb e b]
  obtain oe sum_arr n_arr where
    r: "observed_over_expected real_numpy [[Fin 1, Fin 5], [Fin 7, Fin 1]]
        (Mask2D [[True, False], [True, True]]) (Fin (7 / 5)) = Inr (oe, 0 # [1, 2], sum_arr, n_arr)"
    and arr: "sum_arr ! 1 = dsum (map (\<lambda>(i, j). mat_get [[Fin 1, Fin 5], [Fin 7, Fin 1]] i j)
        (bin_pixels [[True, False], [True, True]] 2 ((0 # [1, 2]) ! 1) ([1, 2] ! 1)))"
      "n_arr ! 1 = length (bin_pixels [[True, False], [True, True]] 2 ((0 # [1, 2]) ! 1) ([1, 2] ! 1))"
    and div: "bin_mean [[Fin 1, Fin 5], [Fin 7, Fin 1]] [[True, False], [True, True]] 2
          ((0 # [1, 2]) ! 1) ([1, 2] ! 1) \<noteq> Fin 0 \<longrightarrow>
       (\<forall>d i. (0 # [1, 2]) ! 1 \<le> d \<and> d < [1, 2] ! 1 \<and> i + d < 2 \<longrightarrow>
          mat_get oe (i + d) i =
            (if mat_get [[True, False], [True, True]] (i + d) i
             then ddiv (mat_get [[Fin 1, Fin 5], [Fin 7, Fin 1]] (i + d) i)
               (bin_mean [[Fin 1, Fin 5], [Fin 7, Fin 1]] [[True, False], [True, True]] 2
                 ((0 # [1, 2]) ! 1) ([1, 2] ! 1))
             else mat_get [[Fin 1, Fin 5], [Fin 7, Fin 1]] (i + d) i) \<and>
          mat_get oe i (i + d) =
            (if mat_get [[True, False], [True, True]] (i + d) i
             then ddiv (mat_get [[Fin 1, Fin 5], [Fin 7, Fin 1]] i (i + d))
               (bin_mean [[Fin 1, Fin 5], [Fin 7, Fin 1]] [[True, False], [True, True]] 2
                 ((0 # [1, 2]) ! 1) ([1, 2] ! 1))
             else mat_get [[Fin 1, Fin 5], [Fin 7, Fin 1]] i (i + d)))"
    by blast
  have "bin_mean [[Fin 1, Fin 5], [Fin 7, Fin 1]] [[True, False], [True, True]] 2
      ((0 # [1, 2]) ! 1) ([1, 2] ! 1) \<noteq> Fin 0"
    unfolding nth mean by simp
  from div [rule_format, OF this, of 1 0]
  have "mat_get oe 1 0 = Fin 1" "mat_get oe 0 1 = Fin (5 / 7)"
    unfolding nth mean by (simp_all add: mat_get_def)
  moreover have "sum_arr ! 1 = Fin 7" "n_arr ! 1 = 1"
    using arr unfolding nth px by (simp_all add: dsum_def mat_get_def)
  ultimately show ?thesis
    using r sq m sqm mean logbins_2_ratio by auto
qed

section \<open>A matrix that depends on the distance only\<close>





section \<open>The bad-bin counts of the insulation boundaries\<close>

lemma bad_bin_counts_example:
  "bad_bin_counts [False, False, False, True, False] 2 = ([1, 0, 0, 1, 2], [0, 0, 1, 1, 0])"
  by code_simp

text \<open>
  Claim C6 at a failing input. Five bins of which bin 3 is bad, a window of two bins
  and \<open>max_bad_bins = 1\<close>. The last line of the loop adds the positions beyond the
  end of the chromosome to \<open>bad_bins_u\<close>, not to \<open>bad_bins_d\<close>: the upstream count
  of bin 4 is 2 where its window \<open>{3, 4}\<close> holds one bad bin, and the downstream
  count is 0 where the window \<open>{4, 5}\<close> holds the position 5 beyond the end. Bin 4 is
  marked missing; by the counts of the specification (one upstream, one downstream,
  the bin itself good) it is not to be.
\<close>

theorem bad_bins_downstream_edge:
  "bad_bin_counts [False, False, False, True, False] 2 = ([1, 0, 0, 1, 2], [0, 0, 1, 1, 0]) \<and>
   mark_bad_bins [Fin 1, Fin 1, Fin 1, NaN, Fin 1] 2 1 [Fin 0, Fin 0, Fin 0, Fin 0, Fin 0] =
     [Fin 0, Fin 0, Fin 0, NaN, NaN] \<and>
   upstream_bad [False, False, False, True, False] 2 4 = 1 \<and>
   downstream_bad [False, False, False, True, False] 2 4 = 1 \<and>
   \<not> missing_by_spec [False, False, False, True, False] 2 1 4"
proof -
  have u: "upstream_bad [False, False, False, True, False] 2 4 = 1"
    by code_simp
  have d: "downstream_bad [False, False, False, True, False] 2 4 = 1"
    by code_simp
  have m: "mark_bad_bins [Fin 1, Fin 1, Fin 1, NaN, Fin 1] 2 1 [Fin 0, Fin 0, Fin 0, Fin 0, Fin 0] =
     [Fin 0, Fin 0, Fin 0, NaN, NaN]"
    by (simp add: mark_bad_bins_def isnan_def bad_bin_counts_example masked_assign_def)
  show ?thesis
    by (simp add: bad_bin_counts_example m u d missing_by_spec_def)
qed

section \<open>Which calls write into the caller's array\<close>

text \<open>
  The calls on the store agree with the functions of the values: the array returned
  holds the matrix that \<open>iterative_correction_symmetric\<close> and
  \<open>observed_over_expected\<close> compute from the value of the argument.
\<close>

lemma copy_then_write:
  "take (length h) ((h @ [m])[length h := m']) = h"
  "((h @ [m])[length h := m']) ! length h = m'"
  "a < length h \<Longrightarrow> ((h @ [m])[length h := m']) ! a = h ! a"
  by (simp_all add: nth_append)

lemma set_diag_in_place:
  "set_diag h arr x i None =
     (arr, h[arr := flat_slice_assign (h ! arr) (max i (- int (ncols (h ! arr)) * i))
                      (Some (max 0 (int (ncols (h ! arr)) - i) * int (ncols (h ! arr))))
                      (ncols (h ! arr) + 1) x])"
  by (simp add: set_diag_def Let_def nat_add_distrib)

lemma set_diag_fold_frame:
  "length (fold (\<lambda>i h. snd (set_diag h c x i None)) is h) = length h \<and>
   (\<forall>a. a \<noteq> c \<longrightarrow> fold (\<lambda>i h. snd (set_diag h c x i None)) is h ! a = h ! a)"
  by (induction "is" arbitrary: h) (simp_all add: set_diag_in_place)

lemma insul_diamond_frame:
  assumes "a < length h"
  shows "snd (insul_diamond h a window ignore_diags) ! a = h ! a"
proof (cases "ignore_diags = 0")
  case True
  then show ?thesis by (simp add: insul_diamond_def)
next
  case False
  have "fold (\<lambda>i g. snd (set_diag g (length h) NaN i None)) is (h @ [h ! a]) ! a = (h @ [h ! a]) ! a" for "is"
    using set_diag_fold_frame [of "length h" NaN "is" "h @ [h ! a]"] assms by simp
  then show ?thesis
    using False assms by (simp add: insul_diamond_def np_copy_def alloc_def nth_append)
qed

lemma iterative_correction_symmetric_call_frame:
  assumes "a < length h"
  shows "snd (iterative_correction_symmetric_call dt h a max_iter ignore_diags tol) ! a = h ! a"
    and "fst (fst (iterative_correction_symmetric_call dt h a max_iter ignore_diags tol)) \<noteq> a"
  using assms
  by (simp_all add: iterative_correction_symmetric_call_def np_copy_def alloc_def Let_def nth_append
      nth_list_update)

lemma iterative_correction_symmetric_call_value:
  "(case iterative_correction_symmetric_call dt h a max_iter ignore_diags tol of
      ((out, totalBias, rep), h') \<Rightarrow> (h' ! out, totalBias, rep)) =
   iterative_correction_symmetric dt (h ! a) max_iter ignore_diags tol"
  by (simp add: iterative_correction_symmetric_call_def iterative_correction_symmetric_def
      np_copy_def alloc_def Let_def nth_append)

lemma observed_over_expected_call_frame:
  assumes "a < length h"
  shows "snd (observed_over_expected_call np h a m ratio) ! a = h ! a"
    and "\<forall>out bins s n. fst (observed_over_expected_call np h a m ratio) = Inr (out, bins, s, n) \<longrightarrow> out \<noteq> a"
  using assms
  by (auto simp: observed_over_expected_call_def np_copy_def alloc_def Let_def nth_append
      split: sum.splits prod.splits)

lemma observed_over_expected_call_value:
  "(case observed_over_expected_call np h a m ratio of
      (Inl e, h') \<Rightarrow> Inl e
    | (Inr (out, bins, s, n), h') \<Rightarrow> Inr (h' ! out, bins, s, n)) =
   observed_over_expected np (h ! a) m ratio"
  by (auto simp: observed_over_expected_call_def observed_over_expected_def oe_with_edges_def
      np_copy_def alloc_def Let_def nth_append split: sum.splits prod.splits)

text \<open>
  Claim C9, as the code has it. For every array \<open>a\<close> of the store, a call with the
  defaults of the balancer, of the distance-decay normalizer, of the insulation scorer,
  of \<open>fill_diagonal\<close>, \<open>fill_na\<close>, \<open>fill_inf\<close> or \<open>fill_nainf\<close> leaves
  \<open>a\<close> as it was and returns another array; so does \<open>set_diag\<close> with
  \<open>copy=True\<close>. With its defaults \<open>set_diag\<close> returns \<open>a\<close> itself, with the
  diagonal written into it: of this function the in-place variant is the default, and
  the copy is what the caller opts into.
\<close>

theorem default_calls_copy:
  assumes "a < length h"
  shows
    "snd (iterative_correction_symmetric_call dt h a max_iter ignore_diags tol) ! a = h ! a \<and>
     fst (fst (iterative_correction_symmetric_call dt h a max_iter ignore_diags tol)) \<noteq> a \<and>
     snd (observed_over_expected_call np h a m ratio) ! a = h ! a \<and>
     (\<forall>out bins s n. fst (observed_over_expected_call np h a m ratio) = Inr (out, bins, s, n) \<longrightarrow>
        out \<noteq> a) \<and>
     snd (insul_diamond h a window g) ! a = h ! a \<and>
     snd (fill_diagonal h a v k wrap None) ! a = h ! a \<and> fst (fill_diagonal h a v k wrap None) \<noteq> a \<and>
     snd (fill_na h a v None) ! a = h ! a \<and> fst (fill_na h a v None) \<noteq> a \<and>
     snd (fill_inf h a v w None) ! a = h ! a \<and> fst (fill_inf h a v w None) \<noteq> a \<and>
     snd (fill_nainf h a v None) ! a = h ! a \<and> fst (fill_nainf h a v None) \<noteq> a \<and>
     snd (set_diag h a v k (Some True)) ! a = h ! a \<and> fst (set_diag h a v k (Some True)) \<noteq> a \<and>
     fst (set_diag h a v k None) = a \<and>
     snd (set_diag h a v k None) ! a =
       flat_slice_assign (h ! a) (max k (- int (ncols (h ! a)) * k))
         (Some (max 0 (int (ncols (h ! a)) - k) * int (ncols (h ! a)))) (ncols (h ! a) + 1) v"
proof -
  have 1: "snd (fill_diagonal h a v k wrap None) ! a = h ! a" "fst (fill_diagonal h a v k wrap None) \<noteq> a"
    using assms by (simp_all add: fill_diagonal_def np_copy_def alloc_def Let_def nth_append)
  have 2: "snd (fill_na h a v None) ! a = h ! a" "fst (fill_na h a v None) \<noteq> a"
    using assms by (simp_all add: fill_na_def np_copy_def alloc_def Let_def nth_append)
  have 3: "snd (fill_inf h a v w None) ! a = h ! a" "fst (fill_inf h a v w None) \<noteq> a"
    using assms by (simp_all add: fill_inf_def np_copy_def alloc_def Let_def nth_append)
  have 4: "snd (fill_nainf h a v None) ! a = h ! a" "fst (fill_nainf h a v None) \<noteq> a"
    using assms by (simp_all add: fill_nainf_def np_copy_def alloc_def Let_def nth_append)
  have 5: "snd (set_diag h a v k (Some True)) ! a = h ! a" "fst (set_diag h a v k (Some True)) \<noteq> a"
    using assms by (simp_all add: set_diag_def np_copy_def alloc_def Let_def nth_append)
  have 6: "fst (set_diag h a v k None) = a"
    "snd (set_diag h a v k None) ! a =
       flat_slice_assign (h ! a) (max k (- int (ncols (h ! a)) * k))
         (Some (max 0 (int (ncols (h ! a)) - k) * int (ncols (h ! a)))) (ncols (h ! a) + 1) v"
    using assms by (simp_all add: set_diag_in_place)
  show ?thesis
    using iterative_correction_symmetric_call_frame [OF assms]
      observed_over_expected_call_frame [OF assms] insul_diamond_frame [OF assms] 1 2 3 4 5 6
    by blast
qed

text \<open>
  \<open>set_diag(arr, 9)\<close> on the array \<open>[[1, 2], [3, 4]]\<close>: the array returned is the
  caller's, and it holds \<open>[[9, 2], [3, 9]]\<close>.
\<close>

theorem default_calls_copy_counterexample:
  "set_diag [[[Fin 1, Fin 2], [Fin 3, Fin 4]]] 0 (Fin 9) 0 None =
     (0, [[[Fin 9, Fin 2], [Fin 3, Fin 9]]])"
  by code_simp

text \<open>
  A store with the one array \<open>[[1, 2], [3, 4]]\<close>: every call with the defaults leaves it
  as it is, and \<open>set_diag\<close> with the defaults writes 9 on its diagonal.
\<close>

theorem default_calls_copy_witness:
  "(0::nat) < length [[[Fin 1, Fin 2], [Fin 3, Fin 4]]] \<and>
   snd (iterative_correction_symmetric_call Float64 [[[Fin 1, Fin 2], [Fin 3, Fin 4]]] 0 3 1 (Fin 0)) ! 0 =
     [[Fin 1, Fin 2], [Fin 3, Fin 4]] \<and>
   snd (observed_over_expected_call real_numpy [[[Fin 1, Fin 2], [Fin 3, Fin 4]]] 0 (Mask1D []) (Fin (7 / 5))) ! 0 =
     [[Fin 1, Fin 2], [Fin 3, Fin 4]] \<and>
   snd (insul_diamond [[[Fin 1, Fin 2], [Fin 3, Fin 4]]] 0 2 1) ! 0 =
     [[Fin 1, Fin 2], [Fin 3, Fin 4]] \<and>
   snd (fill_diagonal [[[Fin 1, Fin 2], [Fin 3, Fin 4]]] 0 (Fin 9) 0 False None) ! 0 =
     [[Fin 1, Fin 2], [Fin 3, Fin 4]] \<and>
   snd (fill_na [[[Fin 1, Fin 2], [Fin 3, Fin 4]]] 0 (Fin 9) None) ! 0 =
     [[Fin 1, Fin 2], [Fin 3, Fin 4]] \<and>
   snd (fill_inf [[[Fin 1, Fin 2], [Fin 3, Fin 4]]] 0 (Fin 9) (Fin 0) None) ! 0 =
     [[Fin 1, Fin 2], [Fin 3, Fin 4]] \<and>
   snd (fill_nainf [[[Fin 1, Fin 2], [Fin 3, Fin 4]]] 0 (Fin 9) None) ! 0 =
     [[Fin 1, Fin 2], [Fin 3, Fin 4]] \<and>
   snd (set_diag [[[Fin 1, Fin 2], [Fin 3, Fin 4]]] 0 (Fin 9) 0 (Some True)) ! 0 =
     [[Fin 1, Fin 2], [Fin 3, Fin 4]] \<and>
   snd (set_diag [[[Fin 1, Fin 2], [Fin 3, Fin 4]]] 0 (Fin 9) 0 None) ! 0 =
     [[Fin 9, Fin 2], [Fin 3, Fin 9]]"
proof -
  have n: "ncols [[Fin 1, Fin 2], [Fin 3, Fin 4]] = 2"
    by (simp add: ncols_def)
  have e: "flat_slice_assign [[Fin 1, Fin 2], [Fin 3, Fin 4]] 0 (Some 4) 3 (Fin 9) =
      [[Fin 9, Fin 2], [Fin 3, Fin 9]]"
    by code_simp
  have l: "(0::nat) < length [[[Fin 1, Fin 2], [Fin 3, Fin 4]]]"
    by simp
  from default_calls_copy [OF l, where max_iter = 3 and ignore_diags = 1 and tol = "Fin 0"
      and m = "Mask1D []" and np = real_numpy and ratio = "Fin (7 / 5)" and dt = Float64 and window = 2 and g = 1 and v = "Fin 9"
      and k = 0 and wrap = False and w = "Fin 0"]
  show ?thesis
    by (simp add: n e)
qed

end
